theory Spec2Isabelle
  imports Main "HOL-Library.Word"
begin

section \<open>The ring buffer object\<close>

text \<open>
  \<^verbatim>\<open>template<typename T, size_t Size> class RingBufCPP\<close> of \<^verbatim>\<open>RingBufCPP.h\<close>.
  The element type \<^verbatim>\<open>T\<close> is the type variable \<open>'a\<close>. The index type
  \<^verbatim>\<open>size_type = size_t\<close> is an unsigned machine integer whose width depends on the
  platform (16 bits on AVR, 32 or 64 elsewhere): it is \<open>'w word\<close>, so \<open>+\<close> and
  \<open>-\<close> wrap modulo \<open>2 ^ LENGTH('w)\<close> as the C++ operators do. The template parameter
  \<^verbatim>\<open>Size\<close> is an explicit first argument of every member function that uses it.

  The three data members \<^verbatim>\<open>_buf\<close>, \<^verbatim>\<open>_head\<close>, \<^verbatim>\<open>_numElements\<close> are the fields
  of a record (an identifier cannot start with an underscore here). The array
  \<^verbatim>\<open>value_type _buf[Size]\<close> is a list; that its length is \<^verbatim>\<open>Size\<close> is part of the
  invariant \<open>rb_inv\<close> below.
\<close>

record (overloaded) ('a, 'w) RingBufCPP =
  buf :: "'a list"
  head :: "'w word"
  numElements :: "'w word"

text \<open>
  C++ has no checked array access: indexing \<^verbatim>\<open>_buf\<close> outside \<^verbatim>\<open>[0, Size)\<close> and
  \<^verbatim>\<open>%\<close> by zero are undefined behaviour. The model makes both a value, so that
  "never faults" is a statement about the result.
\<close>

datatype fault = OutOfBounds | DivByZero

subsection \<open>Capacity\<close>

definition max_size :: "'w::len word \<Rightarrow> 'w word" where
  "max_size Size = Size"

definition size_rb :: "('a, 'w::len) RingBufCPP \<Rightarrow> 'w word" where
  "size_rb s = numElements s"

definition empty_rb :: "('a, 'w::len) RingBufCPP \<Rightarrow> bool" where
  "empty_rb s \<longleftrightarrow> size_rb s = 0"

definition full_rb :: "'w::len word \<Rightarrow> ('a, 'w) RingBufCPP \<Rightarrow> bool" where
  "full_rb Size s \<longleftrightarrow> size_rb s \<ge> max_size Size"

subsection \<open>Modifiers\<close>

text \<open>
  \<^verbatim>\<open>RB_ATOMIC_START\<close> and \<^verbatim>\<open>RB_ATOMIC_END\<close> come from \<^verbatim>\<open>RingBufHelpers.h\<close>; they
  bracket each body with an interrupt lock and do not touch the object, so the
  sequential model has nothing in their place.
\<close>

definition clear :: "('a, 'w::len) RingBufCPP \<Rightarrow> ('a, 'w) RingBufCPP" where
  "clear s = s\<lparr>numElements := 0, head := 0\<rparr>"

text \<open>
  The constructor only calls \<^verbatim>\<open>clear()\<close>. Its argument is the object as the
  storage was found: the array and both counters hold whatever was there.
\<close>

definition construct :: "('a, 'w::len) RingBufCPP \<Rightarrow> ('a, 'w) RingBufCPP" where
  "construct raw = clear raw"

text \<open>
  \<^verbatim>\<open>_buf[_head++] = obj\<close> stores at the old head and then increments it; the
  wrap test and the count update follow in the order of the source.
\<close>

definition push ::
  "'w::len word \<Rightarrow> 'a \<Rightarrow> bool \<Rightarrow> ('a, 'w) RingBufCPP \<Rightarrow> fault + (bool \<times> ('a, 'w) RingBufCPP)"
where
  "push Size obj force s =
     (let space = \<not> full_rb Size s in
      if space \<or> force then
        if unat (head s) < length (buf s) then
          let s1 = s\<lparr>buf := (buf s)[unat (head s) := obj], head := head s + 1\<rparr>;
              s2 = (if head s1 \<ge> max_size Size then s1\<lparr>head := 0\<rparr> else s1);
              s3 = (if space then s2\<lparr>numElements := numElements s2 + 1\<rparr> else s2)
          in Inr (True, s3)
        else Inl OutOfBounds
      else Inr (False, s))"

definition add ::
  "'w::len word \<Rightarrow> 'a \<Rightarrow> bool \<Rightarrow> ('a, 'w) RingBufCPP \<Rightarrow> fault + (bool \<times> ('a, 'w) RingBufCPP)"
where
  "add Size obj force s = push Size obj force s"

definition tail_index :: "'w::len word \<Rightarrow> ('a, 'w) RingBufCPP \<Rightarrow> 'w word" where
  "tail_index Size s =
     (if full_rb Size s then head s
      else if head s \<ge> numElements s then head s - numElements s
      else max_size Size + head s - numElements s)"

text \<open>
  \<^verbatim>\<open>peek\<close> returns a pointer into \<^verbatim>\<open>_buf\<close> or \<^verbatim>\<open>nullptr\<close>: the model returns
  the slot the pointer refers to, or \<open>None\<close>. The member function is not
  \<^verbatim>\<open>const\<close>, so the object is threaded through like in the other operations.
\<close>

definition peek ::
  "'w::len word \<Rightarrow> 'w word \<Rightarrow> ('a, 'w) RingBufCPP
     \<Rightarrow> fault + ('w word option \<times> ('a, 'w) RingBufCPP)"
where
  "peek Size index s =
     (if index < size_rb s then
        if max_size Size = 0 then Inl DivByZero
        else
          let i = (tail_index Size s + index) mod max_size Size in
          if unat i < length (buf s) then Inr (Some i, s) else Inl OutOfBounds
      else Inr (None, s))"

text \<open>What the caller reads through a pointer returned by \<^verbatim>\<open>peek\<close>.\<close>

definition deref :: "('a, 'w::len) RingBufCPP \<Rightarrow> 'w word \<Rightarrow> 'a" where
  "deref s p = buf s ! unat p"

text \<open>
  \<^verbatim>\<open>poll\<close> and \<^verbatim>\<open>pull\<close> write through a reference or pointer supplied by the
  caller. The object it refers to is either outside the array (\<open>Outside d\<close>, an
  object of the caller holding \<open>d\<close>) or a slot of the array itself (\<open>Slot p\<close>, the
  element \<^verbatim>\<open>_buf[p]\<close>, as a pointer returned by \<^verbatim>\<open>peek\<close> is). \<open>read_ref\<close> is
  what the caller finds in the object after a call.

  \<^verbatim>\<open>push\<close> takes \<^verbatim>\<open>const value_type &obj\<close> and reads it once, in the assignment
  that stores it, before anything else is written: passing the value is exact there,
  also when \<^verbatim>\<open>obj\<close> is an element of the array.
\<close>

datatype ('a, 'i) object_ref = Outside 'a | Slot 'i

definition read_ref :: "('a, 'w::len) RingBufCPP \<Rightarrow> ('a, 'w word) object_ref \<Rightarrow> 'a" where
  "read_ref s r = (case r of Outside d \<Rightarrow> d | Slot p \<Rightarrow> buf s ! unat p)"

text \<open>
  \<^verbatim>\<open>poll(value_type &destination)\<close>: the assignment
  \<^verbatim>\<open>destination = _buf[tail_index()]\<close> comes first, then the count goes down. With
  the destination outside the array its new value is returned; with the destination
  a slot, the array is updated there. A slot that does not exist is an access out of
  range.
\<close>

definition poll ::
  "'w::len word \<Rightarrow> ('a, 'w word) object_ref \<Rightarrow> ('a, 'w) RingBufCPP
     \<Rightarrow> fault + (bool \<times> ('a, 'w word) object_ref \<times> ('a, 'w) RingBufCPP)"
where
  "poll Size destination s =
     (if \<not> empty_rb s then
        let t = tail_index Size s in
        if unat t < length (buf s) then
          (case destination of
             Outside d \<Rightarrow>
               Inr (True, Outside (buf s ! unat t), s\<lparr>numElements := numElements s - 1\<rparr>)
           | Slot p \<Rightarrow>
               if unat p < length (buf s) then
                 Inr (True, Slot p,
                      s\<lparr>buf := (buf s)[unat p := buf s ! unat t],
                        numElements := numElements s - 1\<rparr>)
               else Inl OutOfBounds)
        else Inl OutOfBounds
      else Inr (False, destination, s))"

text \<open>The overload \<^verbatim>\<open>poll()\<close> without a destination reads no array element.\<close>

definition poll0 :: "('a, 'w::len) RingBufCPP \<Rightarrow> bool \<times> ('a, 'w) RingBufCPP" where
  "poll0 s =
     (if \<not> empty_rb s then (True, s\<lparr>numElements := numElements s - 1\<rparr>)
      else (False, s))"

text \<open>
  \<^verbatim>\<open>pull(value_type *const destination = nullptr)\<close>: the pointer is \<open>None\<close> for
  \<^verbatim>\<open>nullptr\<close> and \<open>Some r\<close> for a pointer to the object \<open>r\<close>.
\<close>

definition pull ::
  "'w::len word \<Rightarrow> ('a, 'w word) object_ref option \<Rightarrow> ('a, 'w) RingBufCPP
     \<Rightarrow> fault + (bool \<times> ('a, 'w word) object_ref option \<times> ('a, 'w) RingBufCPP)"
where
  "pull Size destination s =
     (case destination of
        Some d \<Rightarrow>
          (case poll Size d s of
             Inl e \<Rightarrow> Inl e
           | Inr (r, d', s') \<Rightarrow> Inr (r, Some d', s'))
      | None \<Rightarrow> (case poll0 s of (r, s') \<Rightarrow> Inr (r, None, s')))"

section \<open>Callers\<close>

text \<open>
  A caller of the class issues member calls one after the other, as \<^verbatim>\<open>main\<close> of
  \<^verbatim>\<open>examples_no_arduino/test.cpp\<close> does. A call with its arguments is a value of
  \<open>call\<close>; \<open>step\<close> performs one call on the object and \<open>run\<close> a whole sequence,
  stopping at the first fault. Return values are dropped here: only the object
  matters for what can be reached.
\<close>

datatype ('a, 'i) call =
    Clear
  | Push 'a bool
  | Add 'a bool
  | Peek 'i
  | Poll "('a, 'i) object_ref"
  | Poll0
  | Pull "('a, 'i) object_ref option"

fun step ::
  "'w::len word \<Rightarrow> ('a, 'w word) call \<Rightarrow> ('a, 'w) RingBufCPP \<Rightarrow> fault + ('a, 'w) RingBufCPP"
where
  "step Size Clear s = Inr (clear s)"
| "step Size (Push obj force) s = map_sum id snd (push Size obj force s)"
| "step Size (Add obj force) s = map_sum id snd (add Size obj force s)"
| "step Size (Peek index) s = map_sum id snd (peek Size index s)"
| "step Size (Poll destination) s = map_sum id (snd \<circ> snd) (poll Size destination s)"
| "step Size Poll0 s = Inr (snd (poll0 s))"
| "step Size (Pull destination) s = map_sum id (snd \<circ> snd) (pull Size destination s)"

fun run ::
  "'w::len word \<Rightarrow> ('a, 'w word) call list \<Rightarrow> ('a, 'w) RingBufCPP \<Rightarrow> fault + ('a, 'w) RingBufCPP"
where
  "run Size [] s = Inr s"
| "run Size (c # cs) s =
     (case step Size c s of Inl e \<Rightarrow> Inl e | Inr s' \<Rightarrow> run Size cs s')"

text \<open>
  Two caller loops: pushing every element of a list with \<^verbatim>\<open>force = false\<close> and
  collecting the return values, and calling \<^verbatim>\<open>poll(destination)\<close> a number of
  times on the same local variable of the caller, as the last loop of \<^verbatim>\<open>main\<close>
  does with \<^verbatim>\<open>pulled\<close>, collecting each return value together with the value the
  variable holds after that call.
\<close>

fun push_all ::
  "'w::len word \<Rightarrow> 'a list \<Rightarrow> ('a, 'w) RingBufCPP \<Rightarrow> fault + (bool list \<times> ('a, 'w) RingBufCPP)"
where
  "push_all Size [] s = Inr ([], s)"
| "push_all Size (v # vs) s =
     (case push Size v False s of
        Inl e \<Rightarrow> Inl e
      | Inr (r, s') \<Rightarrow>
          (case push_all Size vs s' of
             Inl e \<Rightarrow> Inl e
           | Inr (rs, s'') \<Rightarrow> Inr (r # rs, s'')))"

fun poll_n ::
  "'w::len word \<Rightarrow> nat \<Rightarrow> 'a \<Rightarrow> ('a, 'w) RingBufCPP
     \<Rightarrow> fault + ((bool \<times> 'a) list \<times> ('a, 'w) RingBufCPP)"
where
  "poll_n Size 0 d s = Inr ([], s)"
| "poll_n Size (Suc k) d s =
     (case poll Size (Outside d) s of
        Inl e \<Rightarrow> Inl e
      | Inr (r, d', s') \<Rightarrow>
          (case poll_n Size k (read_ref s' d') s' of
             Inl e \<Rightarrow> Inl e
           | Inr (rs, s'') \<Rightarrow> Inr ((r, read_ref s' d') # rs, s'')))"

section \<open>Invariant and abstraction\<close>

text \<open>
  The class invariant: the array has \<^verbatim>\<open>Size\<close> slots, the head is a valid slot and
  the count does not exceed the capacity. It implies \<open>0 < Size\<close>.
\<close>

definition rb_inv :: "'w::len word \<Rightarrow> ('a, 'w) RingBufCPP \<Rightarrow> bool" where
  "rb_inv Size s \<longleftrightarrow>
     length (buf s) = unat Size \<and> head s < Size \<and> numElements s \<le> Size"

text \<open>
  A reference refers to an object that exists: a slot is one of the \<^verbatim>\<open>Size\<close> slots
  of the array, as every pointer returned by \<^verbatim>\<open>peek\<close> is. \<open>ptr_ok\<close> says the same
  of a pointer that may be \<^verbatim>\<open>nullptr\<close>, and \<open>call_ok\<close> of the destination of a
  call.
\<close>

definition dest_ok :: "'w::len word \<Rightarrow> ('a, 'w word) object_ref \<Rightarrow> bool" where
  "dest_ok Size r = (case r of Outside d \<Rightarrow> True | Slot p \<Rightarrow> p < Size)"

definition ptr_ok :: "'w::len word \<Rightarrow> ('a, 'w word) object_ref option \<Rightarrow> bool" where
  "ptr_ok Size dst = (case dst of None \<Rightarrow> True | Some r \<Rightarrow> dest_ok Size r)"

fun call_ok :: "'w::len word \<Rightarrow> ('a, 'w word) call \<Rightarrow> bool" where
  "call_ok Size (Poll destination) = dest_ok Size destination"
| "call_ok Size (Pull destination) = ptr_ok Size destination"
| "call_ok Size c = True"

text \<open>
  An array object of \<^verbatim>\<open>Size\<close> elements occupies at least \<^verbatim>\<open>Size\<close> bytes, and no
  object is larger than \<^verbatim>\<open>PTRDIFF_MAX\<close> bytes, which is below half the range of
  \<^verbatim>\<open>size_t\<close>: compilers reject the declaration otherwise. Under this bound the sum
  \<^verbatim>\<open>tail_index() + index\<close> in \<^verbatim>\<open>peek\<close> cannot wrap.
\<close>

definition object_size_ok :: "'w::len word \<Rightarrow> bool" where
  "object_size_ok Size \<longleftrightarrow> 2 * unat Size \<le> 2 ^ LENGTH('w)"

text \<open>
  The queue a buffer stands for, oldest element first: \<open>size_rb s\<close> consecutive
  slots starting at the tail, taken modulo the capacity. \<open>ring_list\<close> is the same
  reading over natural numbers.
\<close>

definition ring_list :: "'a list \<Rightarrow> nat \<Rightarrow> nat \<Rightarrow> nat \<Rightarrow> 'a list" where
  "ring_list xs n t c = map (\<lambda>i. xs ! ((t + i) mod n)) [0..<c]"

definition contents :: "'w::len word \<Rightarrow> ('a, 'w) RingBufCPP \<Rightarrow> 'a list" where
  "contents Size s =
     map (\<lambda>i. buf s ! ((unat (tail_index Size s) + i) mod unat Size))
       [0..<unat (size_rb s)]"

subsection \<open>Sample objects\<close>

text \<open>
  Objects of \<^verbatim>\<open>RingBufCPP<int, 3>\<close> with a 16-bit \<^verbatim>\<open>size_t\<close>: full with the oldest
  element in slot 1, holding the single element 20, empty with the head at the last
  slot, and storage before the constructor ran. \<open>ex_calls\<close> is a sequence of calls
  that fills the buffer, overwrites, reads, drains and clears it, with destinations
  outside and inside the array.
\<close>

abbreviation ex_full :: "(int, 16) RingBufCPP" where
  "ex_full \<equiv> \<lparr>buf = [10, 20, 30], head = 1, numElements = 3\<rparr>"

abbreviation ex_part :: "(int, 16) RingBufCPP" where
  "ex_part \<equiv> \<lparr>buf = [10, 20, 30], head = 2, numElements = 1\<rparr>"

abbreviation ex_empty :: "(int, 16) RingBufCPP" where
  "ex_empty \<equiv> \<lparr>buf = [10, 20, 30], head = 2, numElements = 0\<rparr>"

abbreviation ex_raw :: "(int, 16) RingBufCPP" where
  "ex_raw \<equiv> \<lparr>buf = [7, 8, 9], head = 5, numElements = 9\<rparr>"

abbreviation ex_calls :: "(int, 16 word) call list" where
  "ex_calls \<equiv> [Push 1 False, Add 2 False, Push 3 True, Push 4 False, Push 5 True, Peek 1,
               Poll (Slot 0), Pull None, Pull (Some (Outside 0)), Poll0, Push 7 False,
               Pull (Some (Slot 2)), Poll (Outside 0), Clear, Add 6 True]"

section \<open>Index arithmetic\<close>

lemma unat_inc_below:
  fixes h :: "'w::len word"
  assumes "h < Size"
  shows "unat (h + 1) = unat h + 1"
proof -
  have "unat h < unat Size" using assms by (simp add: word_less_nat_alt)
  moreover have "unat Size < 2 ^ LENGTH('w)" by (rule unsigned_less)
  ultimately have "unat h + 1 < 2 ^ LENGTH('w)" by linarith
  then have "unat h + unat (1::'w word) < 2 ^ LENGTH('w)" by (simp only: unat_1)
  then have "unat (h + 1) = unat h + unat (1::'w word)"
    by (simp only: unat_plus_if' if_True)
  then show ?thesis by (simp only: unat_1)
qed

lemma unat_tail_wrap:
  fixes h c Size :: "'w::len word"
  assumes "h < c" "c < Size"
  shows "unat (Size + h - c) = unat Size + unat h - unat c"
proof -
  have b: "unat h < unat c" "unat c < unat Size"
    using assms by (simp_all add: word_less_nat_alt)
  have e: "Size + h - c = Size - (c - h)" by simp
  have d: "unat (c - h) = unat c - unat h"
    using b by (simp only: unat_sub_if') simp
  have "unat (Size - (c - h)) = unat Size - unat (c - h)"
    using b d by (simp only: unat_sub_if') simp
  then have "unat (Size + h - c) = unat Size - (unat c - unat h)"
    by (simp only: e d)
  then show ?thesis using b by linarith
qed

lemma unat_head_step:
  fixes h :: "'w::len word"
  assumes "h < Size"
  shows "unat (if h + 1 \<ge> Size then 0 else h + 1) = (unat h + 1) mod unat Size"
proof -
  have a: "unat h < unat Size" using assms by (simp add: word_less_nat_alt)
  have b: "unat (h + 1) = unat h + 1" using assms by (rule unat_inc_below)
  show ?thesis
  proof (cases "h + 1 \<ge> Size")
    case True
    then have "unat Size \<le> unat h + 1" by (simp only: word_le_nat_alt b)
    with a have "unat h + 1 = unat Size" by linarith
    with True show ?thesis by simp
  next
    case False
    then have "unat h + 1 < unat Size" by (simp only: word_le_nat_alt b not_le)
    with False b show ?thesis by simp
  qed
qed

subsection \<open>The tail over natural numbers\<close>


lemma tail_nat_ge:
  fixes h c n :: nat
  assumes "c \<le> h" "h < n"
  shows "(h + n - c) mod n = h - c"
proof -
  have "h + n - c = (h - c) + n" using assms by linarith
  then have "(h + n - c) mod n = ((h - c) + n) mod n" by (rule arg_cong)
  also have "\<dots> = (h - c) mod n" by (rule mod_add_self2)
  also have "\<dots> = h - c" using assms by (intro mod_less) linarith
  finally show ?thesis .
qed

lemma tail_nat_lt:
  fixes h c n :: nat
  assumes "h < c" "c \<le> n"
  shows "(h + n - c) mod n = n + h - c"
proof -
  have "h + n - c < n" using assms by linarith
  then have "(h + n - c) mod n = h + n - c" by (rule mod_less)
  then show ?thesis by (simp only: add.commute)
qed

lemma unat_tail_index:
  assumes "rb_inv Size s"
  shows "unat (tail_index Size s)
           = (unat (head s) + unat Size - unat (numElements s)) mod unat Size"
proof -
  let ?h = "unat (head s)" and ?c = "unat (numElements s)" and ?n = "unat Size"
  have h: "?h < ?n" and c: "?c \<le> ?n"
    using assms by (simp_all add: rb_inv_def word_less_nat_alt word_le_nat_alt)
  show ?thesis
  proof (cases "full_rb Size s")
    case True
    then have "?n \<le> ?c"
      by (simp add: full_rb_def size_rb_def max_size_def word_le_nat_alt)
    with c have e: "?c = ?n" by linarith
    have "tail_index Size s = head s" using True by (simp add: tail_index_def)
    moreover have "(?h + ?n - ?c) mod ?n = ?h" using h by (simp only: e add_diff_cancel_right' mod_less)
    ultimately show ?thesis by (simp only:)
  next
    case nf: False
    then have lt: "numElements s < Size"
      by (simp add: full_rb_def size_rb_def max_size_def not_le)
    then have c': "?c < ?n" by (simp only: word_less_nat_alt)
    show ?thesis
    proof (cases "head s \<ge> numElements s")
      case True
      then have le: "?c \<le> ?h" by (simp only: word_le_nat_alt)
      have "tail_index Size s = head s - numElements s"
        using nf True by (simp add: tail_index_def)
      moreover have "unat (head s - numElements s) = ?h - ?c"
        using le by (simp only: unat_sub_if' if_True)
      moreover have "(?h + ?n - ?c) mod ?n = ?h - ?c"
        using le h by (rule tail_nat_ge)
      ultimately show ?thesis by (simp only:)
    next
      case False
      then have hl: "head s < numElements s" by (simp only: not_le)
      have "tail_index Size s = Size + head s - numElements s"
        using nf False by (simp add: tail_index_def max_size_def)
      moreover have "unat (Size + head s - numElements s) = ?n + ?h - ?c"
        using hl lt by (rule unat_tail_wrap)
      moreover have "?h < ?c" using hl by (simp only: word_less_nat_alt)
      then have "(?h + ?n - ?c) mod ?n = ?n + ?h - ?c" using c by (rule tail_nat_lt)
      ultimately show ?thesis by (simp only:)
    qed
  qed
qed

lemma ring_slot_inj:
  fixes t i j n :: nat
  assumes "(t + i) mod n = (t + j) mod n" "i < n" "j < n"
  shows "i = j"
proof -
  have aux: "a = b" if "(t + a) mod n = (t + b) mod n" "a \<le> b" "b < n" for a b :: nat
  proof -
    have "(t + b) mod n = (t + a) mod n" using that(1) by (rule sym)
    moreover have "t + a \<le> t + b" using that(2) by simp
    ultimately have "n dvd (t + b) - (t + a)" by (simp only: mod_eq_dvd_iff_nat)
    then have "n dvd b - a" by simp
    moreover have "b - a < n" using that(3) by linarith
    ultimately have "b - a = 0" by (meson dvd_imp_le not_less neq0_conv)
    with that(2) show ?thesis by linarith
  qed
  show ?thesis
  proof (cases "i \<le> j")
    case True
    with assms(1) show ?thesis using assms(3) by (rule aux)
  next
    case False
    then have "j \<le> i" by linarith
    with assms(1)[symmetric] have "j = i" using assms(2) by (rule aux)
    then show ?thesis by (rule sym)
  qed
qed

lemma tail_plus_count:
  fixes h c n :: nat
  assumes "h < n" "c \<le> n"
  shows "((h + n - c) mod n + c) mod n = h"
proof -
  have "((h + n - c) mod n + c) mod n = ((h + n - c) + c) mod n"
    by (rule mod_add_left_eq)
  also have "(h + n - c) + c = h + n" using assms by linarith
  also have "(h + n) mod n = h mod n" by (rule mod_add_self2)
  also have "\<dots> = h" using assms(1) by (rule mod_less)
  finally show ?thesis .
qed

lemma tail_after_push:
  fixes h c n :: nat
  assumes "h < n" "c < n"
  shows "((h + 1) mod n + n - (c + 1)) mod n = (h + n - c) mod n"
proof (cases "h + 1 < n")
  case True
  then have "(h + 1) mod n = h + 1" by (rule mod_less)
  moreover have "h + 1 + n - (c + 1) = h + n - c" by linarith
  ultimately show ?thesis by (simp only:)
next
  case False
  with assms have e: "h + 1 = n" by linarith
  then have "(h + 1) mod n = 0" by (simp only: mod_self)
  moreover have "0 + n - (c + 1) = n - (c + 1)" by linarith
  moreover have "(n - (c + 1)) mod n = n - (c + 1)" using assms by (intro mod_less) linarith
  moreover have "(h + n - c) mod n = n - (c + 1)"
  proof -
    have "h + n - c = (n - (c + 1)) + n" using e assms by linarith
    then have "(h + n - c) mod n = ((n - (c + 1)) + n) mod n" by (rule arg_cong)
    also have "\<dots> = (n - (c + 1)) mod n" by (rule mod_add_self2)
    also have "\<dots> = n - (c + 1)" using assms by (intro mod_less) linarith
    finally show ?thesis .
  qed
  ultimately show ?thesis by (simp only:)
qed

lemma tail_after_poll:
  fixes h c n :: nat
  assumes "h < n" "0 < c" "c \<le> n"
  shows "(h + n - (c - 1)) mod n = ((h + n - c) mod n + 1) mod n"
proof -
  have "((h + n - c) mod n + 1) mod n = ((h + n - c) + 1) mod n"
    by (rule mod_add_left_eq)
  moreover have "(h + n - c) + 1 = h + n - (c - 1)" using assms by linarith
  ultimately show ?thesis by (simp only:)
qed

section \<open>Reading a list as a ring\<close>


lemma length_ring_list: "length (ring_list xs n t c) = c"
  by (simp add: ring_list_def)

lemma nth_ring_list: "i < c \<Longrightarrow> ring_list xs n t c ! i = xs ! ((t + i) mod n)"
  by (simp add: ring_list_def)

lemma ring_list_snoc:
  assumes "h < n" "c < n" "length xs = n" "t = (h + n - c) mod n"
  shows "ring_list (xs[h := v]) n t (c + 1) = ring_list xs n t c @ [v]"
proof (rule nth_equalityI)
  show "length (ring_list (xs[h := v]) n t (c + 1)) = length (ring_list xs n t c @ [v])"
    by (simp add: length_ring_list)
next
  fix i
  assume "i < length (ring_list (xs[h := v]) n t (c + 1))"
  then have i: "i < c + 1" by (simp only: length_ring_list)
  have tc: "(t + c) mod n = h"
    using assms(1,2) unfolding assms(4) by (intro tail_plus_count) simp_all
  show "ring_list (xs[h := v]) n t (c + 1) ! i = (ring_list xs n t c @ [v]) ! i"
  proof (cases "i = c")
    case True
    have "ring_list (xs[h := v]) n t (c + 1) ! c = xs[h := v] ! ((t + c) mod n)"
      by (rule nth_ring_list) simp
    also have "\<dots> = v" using assms(1,3) by (simp only: tc nth_list_update_eq)
    finally show ?thesis using True by (simp add: nth_append length_ring_list)
  next
    case False
    with i have ic: "i < c" by linarith
    have ne: "(t + i) mod n \<noteq> h"
    proof
      assume "(t + i) mod n = h"
      then have "(t + i) mod n = (t + c) mod n" by (simp only: tc)
      moreover have "i < n" using ic assms(2) by linarith
      ultimately have "i = c" using assms(2) by (rule ring_slot_inj)
      with False show False ..
    qed
    have "ring_list (xs[h := v]) n t (c + 1) ! i = xs[h := v] ! ((t + i) mod n)"
      using i by (rule nth_ring_list)
    also have "\<dots> = xs ! ((t + i) mod n)" using ne by (simp only: nth_list_update_neq not_False_eq_True ne[symmetric])
    also have "\<dots> = ring_list xs n t c ! i" using ic by (rule nth_ring_list[symmetric])
    finally show ?thesis using ic by (simp add: nth_append length_ring_list)
  qed
qed

lemma ring_list_tl:
  "ring_list xs n ((t + 1) mod n) (c - 1) = tl (ring_list xs n t c)"
proof (rule nth_equalityI)
  show "length (ring_list xs n ((t + 1) mod n) (c - 1)) = length (tl (ring_list xs n t c))"
    by (simp add: length_ring_list)
next
  fix i
  assume "i < length (ring_list xs n ((t + 1) mod n) (c - 1))"
  then have i: "i < c - 1" by (simp only: length_ring_list)
  then have i': "i + 1 < c" by linarith
  have "ring_list xs n ((t + 1) mod n) (c - 1) ! i = xs ! (((t + 1) mod n + i) mod n)"
    using i by (rule nth_ring_list)
  also have "((t + 1) mod n + i) mod n = ((t + 1) + i) mod n" by (rule mod_add_left_eq)
  also have "(t + 1) + i = t + (i + 1)" by linarith
  also have "xs ! ((t + (i + 1)) mod n) = ring_list xs n t c ! (i + 1)"
    using i' by (rule nth_ring_list[symmetric])
  also have "\<dots> = tl (ring_list xs n t c) ! i"
    using i by (simp add: nth_tl length_ring_list)
  finally show "ring_list xs n ((t + 1) mod n) (c - 1) ! i = tl (ring_list xs n t c) ! i" .
qed

lemma ring_list_hd:
  assumes "0 < c" "t < n"
  shows "hd (ring_list xs n t c) = xs ! t"
proof -
  have "ring_list xs n t c \<noteq> []" using assms(1) by (simp add: ring_list_def)
  then have "hd (ring_list xs n t c) = ring_list xs n t c ! 0" by (rule hd_conv_nth)
  also have "\<dots> = xs ! ((t + 0) mod n)" using assms(1) by (rule nth_ring_list)
  also have "\<dots> = xs ! t" using assms(2) by simp
  finally show ?thesis .
qed

lemma ring_list_overwrite:
  assumes "h < n" "length xs = n"
  shows "ring_list (xs[h := v]) n ((h + 1) mod n) n = tl (ring_list xs n h n) @ [v]"
proof (rule nth_equalityI)
  show "length (ring_list (xs[h := v]) n ((h + 1) mod n) n) = length (tl (ring_list xs n h n) @ [v])"
    using assms(1) by (simp add: length_ring_list)
next
  fix i
  assume "i < length (ring_list (xs[h := v]) n ((h + 1) mod n) n)"
  then have i: "i < n" by (simp only: length_ring_list)
  have "ring_list (xs[h := v]) n ((h + 1) mod n) n ! i = xs[h := v] ! (((h + 1) mod n + i) mod n)"
    using i by (rule nth_ring_list)
  also have "((h + 1) mod n + i) mod n = ((h + 1) + i) mod n" by (rule mod_add_left_eq)
  also have "(h + 1) + i = h + (i + 1)" by linarith
  finally have lhs: "ring_list (xs[h := v]) n ((h + 1) mod n) n ! i = xs[h := v] ! ((h + (i + 1)) mod n)" .
  show "ring_list (xs[h := v]) n ((h + 1) mod n) n ! i = (tl (ring_list xs n h n) @ [v]) ! i"
  proof (cases "i + 1 = n")
    case True
    then have "(h + (i + 1)) mod n = (h + n) mod n" by (simp only:)
    also have "\<dots> = h mod n" by (rule mod_add_self2)
    also have "\<dots> = h" using assms(1) by (rule mod_less)
    finally have "xs[h := v] ! ((h + (i + 1)) mod n) = v"
      using assms by (simp only: nth_list_update_eq)
    moreover have "length (tl (ring_list xs n h n)) = i"
      using True by (simp add: length_ring_list)
    then have "(tl (ring_list xs n h n) @ [v]) ! i = v"
      by (metis nth_append_length)
    ultimately show ?thesis using lhs by (simp only:)
  next
    case False
    with i have i1: "i + 1 < n" by linarith
    have ne: "h \<noteq> (h + (i + 1)) mod n"
    proof
      assume "h = (h + (i + 1)) mod n"
      moreover have "(h + 0) mod n = h" using assms(1) by simp
      ultimately have e: "(h + (i + 1)) mod n = (h + 0) mod n" by (simp only:)
      note e
      moreover have "0 < n" using i by linarith
      ultimately have "i + 1 = 0" using i1 by (intro ring_slot_inj[of h "i + 1" n 0])
      then show False by simp
    qed
    have "xs[h := v] ! ((h + (i + 1)) mod n) = xs ! ((h + (i + 1)) mod n)"
      using ne by (rule nth_list_update_neq)
    also have "\<dots> = ring_list xs n h n ! (i + 1)" using i1 by (rule nth_ring_list[symmetric])
    also have "\<dots> = tl (ring_list xs n h n) ! i"
      using i1 by (simp add: nth_tl length_ring_list)
    also have "\<dots> = (tl (ring_list xs n h n) @ [v]) ! i"
    proof -
      have "length (tl (ring_list xs n h n)) = n - 1" by (simp add: length_ring_list)
      with i1 have "i < length (tl (ring_list xs n h n))" by linarith
      then show ?thesis by (simp only: nth_append if_True)
    qed
    finally show ?thesis using lhs by (simp only:)
  qed
qed

section \<open>The operations on valid objects\<close>

text \<open>
  On an object that satisfies the invariant every operation returns without a fault,
  and its result can be written down by cases.
\<close>


lemma rb_inv_nat:
  "rb_inv Size s \<longleftrightarrow>
     length (buf s) = unat Size \<and> unat (head s) < unat Size \<and>
     unat (numElements s) \<le> unat Size"
  by (simp only: rb_inv_def word_less_nat_alt word_le_nat_alt)

lemma full_rb_nat: "full_rb Size s \<longleftrightarrow> unat Size \<le> unat (numElements s)"
  by (simp only: full_rb_def size_rb_def max_size_def word_le_nat_alt)

lemma empty_rb_nat: "empty_rb s \<longleftrightarrow> unat (numElements s) = 0"
  by (simp only: empty_rb_def size_rb_def unat_0_iff)

lemma head_in_buf: "rb_inv Size s \<Longrightarrow> unat (head s) < length (buf s)"
  by (simp only: rb_inv_nat)

lemma push_space_eq:
  assumes "rb_inv Size s" "\<not> full_rb Size s"
  shows "push Size v f s =
           Inr (True, s\<lparr>buf := (buf s)[unat (head s) := v],
                         head := (if Size \<le> head s + 1 then 0 else head s + 1),
                         numElements := numElements s + 1\<rparr>)"
  using assms(2) head_in_buf[OF assms(1)]
  by (simp add: push_def Let_def max_size_def)

lemma push_force_eq:
  assumes "rb_inv Size s" "full_rb Size s"
  shows "push Size v True s =
           Inr (True, s\<lparr>buf := (buf s)[unat (head s) := v],
                         head := (if Size \<le> head s + 1 then 0 else head s + 1)\<rparr>)"
  using assms(2) head_in_buf[OF assms(1)]
  by (simp add: push_def Let_def max_size_def)

lemma push_reject_eq:
  assumes "full_rb Size s"
  shows "push Size v False s = Inr (False, s)"
  using assms by (simp add: push_def)

lemma tail_in_buf:
  assumes "rb_inv Size s"
  shows "unat (tail_index Size s) < length (buf s)"
proof -
  have "0 < unat Size" "length (buf s) = unat Size"
    using assms by (simp_all only: rb_inv_nat) linarith
  then show ?thesis by (simp only: unat_tail_index[OF assms] mod_less_divisor)
qed

lemma poll_eq:
  assumes "rb_inv Size s" "\<not> empty_rb s"
  shows "poll Size (Outside d) s =
           Inr (True, Outside (buf s ! unat (tail_index Size s)),
                s\<lparr>numElements := numElements s - 1\<rparr>)"
  using assms(2) tail_in_buf[OF assms(1)]
  by (simp add: poll_def Let_def)

lemma poll_slot_eq:
  assumes "rb_inv Size s" "\<not> empty_rb s" "p < Size"
  shows "poll Size (Slot p) s =
           Inr (True, Slot p,
                s\<lparr>buf := (buf s)[unat p := buf s ! unat (tail_index Size s)],
                  numElements := numElements s - 1\<rparr>)"
proof -
  have "length (buf s) = unat Size" using assms(1) by (simp only: rb_inv_nat)
  moreover have "unat p < unat Size" using assms(3) by (simp only: word_less_nat_alt)
  ultimately have "unat p < length (buf s)" by linarith
  then show ?thesis
    using assms(2) tail_in_buf[OF assms(1)] by (simp add: poll_def Let_def)
qed

lemma poll_empty_eq:
  assumes "empty_rb s"
  shows "poll Size d s = Inr (False, d, s)"
  using assms by (simp add: poll_def)

lemma unat_count_inc:
  assumes "rb_inv Size s" "\<not> full_rb Size s"
  shows "unat (numElements s + 1) = unat (numElements s) + 1"
proof -
  have "numElements s < Size"
    using assms(2) by (simp add: full_rb_def size_rb_def max_size_def not_le)
  then show ?thesis by (rule unat_inc_below)
qed

lemma unat_count_dec:
  assumes "\<not> empty_rb s"
  shows "unat (numElements s - 1) = unat (numElements s) - 1"
  using assms by (simp add: empty_rb_def size_rb_def unat_minus_one)

lemma unat_head_next:
  assumes "rb_inv Size s"
  shows "unat (if Size \<le> head s + 1 then 0 else head s + 1) = (unat (head s) + 1) mod unat Size"
  using assms by (intro unat_head_step) (simp add: rb_inv_def)

lemma rb_inv_clear:
  assumes "length (buf s) = unat Size" "0 < Size"
  shows "rb_inv Size (clear s)"
  using assms by (simp add: rb_inv_def clear_def)

lemma rb_inv_pos: "rb_inv Size s \<Longrightarrow> 0 < Size"
  unfolding rb_inv_def using word_gt_0 by (metis word_not_simps(1))

lemma rb_inv_push_space:
  assumes "rb_inv Size s" "\<not> full_rb Size s"
  shows "rb_inv Size (s\<lparr>buf := (buf s)[unat (head s) := v],
                         head := (if Size \<le> head s + 1 then 0 else head s + 1),
                         numElements := numElements s + 1\<rparr>)"
proof -
  have n: "0 < unat Size" "length (buf s) = unat Size" "unat (numElements s) < unat Size"
    using assms unfolding rb_inv_nat full_rb_nat by linarith+
  show ?thesis
    unfolding rb_inv_nat
    using n by (simp add: unat_head_next[OF assms(1)] unat_count_inc[OF assms])
qed

lemma rb_inv_push_force:
  assumes "rb_inv Size s"
  shows "rb_inv Size (s\<lparr>buf := (buf s)[unat (head s) := v],
                         head := (if Size \<le> head s + 1 then 0 else head s + 1)\<rparr>)"
proof -
  have n: "0 < unat Size" "length (buf s) = unat Size" "unat (numElements s) \<le> unat Size"
    using assms unfolding rb_inv_nat by linarith+
  show ?thesis
    unfolding rb_inv_nat
    using n by (simp add: unat_head_next[OF assms(1)])
qed

lemma rb_inv_dec:
  assumes "rb_inv Size s" "\<not> empty_rb s"
  shows "rb_inv Size (s\<lparr>numElements := numElements s - 1\<rparr>)"
proof -
  have n: "unat (head s) < unat Size" "length (buf s) = unat Size" "unat (numElements s) \<le> unat Size"
    using assms unfolding rb_inv_nat by linarith+
  show ?thesis
    unfolding rb_inv_nat
    using n by (simp add: unat_count_dec[OF assms(2)])
qed

lemma rb_inv_dec_slot:
  assumes "rb_inv Size s" "\<not> empty_rb s"
  shows "rb_inv Size (s\<lparr>buf := (buf s)[i := x], numElements := numElements s - 1\<rparr>)"
proof -
  have n: "unat (head s) < unat Size" "length (buf s) = unat Size" "unat (numElements s) \<le> unat Size"
    using assms unfolding rb_inv_nat by linarith+
  show ?thesis
    unfolding rb_inv_nat
    using n by (simp add: unat_count_dec[OF assms(2)])
qed

lemma poll_inv:
  assumes "rb_inv Size s" "dest_ok Size dst"
  shows "\<exists>r dst' s'. poll Size dst s = Inr (r, dst', s') \<and> rb_inv Size s'"
proof (cases "empty_rb s")
  case True
  then have "poll Size dst s = Inr (False, dst, s)" by (rule poll_empty_eq)
  with assms(1) show ?thesis by blast
next
  case False
  show ?thesis
  proof (cases dst)
    case (Outside d)
    have "poll Size (Outside d) s =
            Inr (True, Outside (buf s ! unat (tail_index Size s)),
                 s\<lparr>numElements := numElements s - 1\<rparr>)"
      using assms(1) False by (rule poll_eq)
    moreover have "rb_inv Size (s\<lparr>numElements := numElements s - 1\<rparr>)"
      using assms(1) False by (rule rb_inv_dec)
    ultimately show ?thesis unfolding Outside by blast
  next
    case (Slot p)
    then have "p < Size" using assms(2) by (simp add: dest_ok_def)
    with assms(1) False
    have "poll Size (Slot p) s =
            Inr (True, Slot p,
                 s\<lparr>buf := (buf s)[unat p := buf s ! unat (tail_index Size s)],
                   numElements := numElements s - 1\<rparr>)"
      by (rule poll_slot_eq)
    moreover have "rb_inv Size (s\<lparr>buf := (buf s)[unat p := buf s ! unat (tail_index Size s)],
                                  numElements := numElements s - 1\<rparr>)"
      using assms(1) False by (rule rb_inv_dec_slot)
    ultimately show ?thesis unfolding Slot by blast
  qed
qed

lemma pull_inv:
  assumes "rb_inv Size s" "ptr_ok Size dst"
  shows "\<exists>r dst' s'. pull Size dst s = Inr (r, dst', s') \<and> rb_inv Size s'"
proof (cases dst)
  case None
  have "pull Size None s = Inr (fst (poll0 s), None, snd (poll0 s))"
    by (simp add: pull_def split: prod.split)
  moreover have "rb_inv Size (snd (poll0 s))"
    using assms(1) rb_inv_dec[OF assms(1)]
    by (cases "empty_rb s") (simp_all add: poll0_def)
  ultimately show ?thesis unfolding None by blast
next
  case (Some x)
  then have "dest_ok Size x" using assms(2) by (simp add: ptr_ok_def)
  from poll_inv[OF assms(1) this]
  obtain r x' s' where "poll Size x s = Inr (r, x', s')" "rb_inv Size s'" by blast
  then show ?thesis using Some by (simp add: pull_def)
qed

section \<open>The queue behind a buffer\<close>

text \<open>
  A push with room appends to the queue, a forced push on a full buffer drops the
  front and appends, and removing an element drops the front.
\<close>


lemma contents_ring:
  assumes "rb_inv Size s"
  shows "contents Size s =
           ring_list (buf s) (unat Size)
             ((unat (head s) + unat Size - unat (numElements s)) mod unat Size)
             (unat (numElements s))"
  by (simp only: contents_def ring_list_def size_rb_def unat_tail_index[OF assms])

lemma length_contents: "length (contents Size s) = unat (size_rb s)"
  by (simp add: contents_def)

lemma contents_push_space:
  assumes "rb_inv Size s" "\<not> full_rb Size s"
  shows "contents Size (s\<lparr>buf := (buf s)[unat (head s) := v],
                           head := (if Size \<le> head s + 1 then 0 else head s + 1),
                           numElements := numElements s + 1\<rparr>)
           = contents Size s @ [v]"
    (is "contents Size ?s' = _")
proof -
  let ?h = "unat (head s)" and ?c = "unat (numElements s)" and ?n = "unat Size"
  have n: "?h < ?n" "length (buf s) = ?n" "?c < ?n"
    using assms unfolding rb_inv_nat full_rb_nat by linarith+
  have inv': "rb_inv Size ?s'" using assms by (rule rb_inv_push_space)
  have h': "unat (head ?s') = (?h + 1) mod ?n"
    using unat_head_next[OF assms(1)] by simp
  have c': "unat (numElements ?s') = ?c + 1"
    using unat_count_inc[OF assms] by simp
  have b': "buf ?s' = (buf s)[?h := v]" by simp
  have "contents Size ?s' =
          ring_list (buf ?s') ?n
            ((unat (head ?s') + ?n - unat (numElements ?s')) mod ?n) (unat (numElements ?s'))"
    using inv' by (rule contents_ring)
  also have "\<dots> = ring_list ((buf s)[?h := v]) ?n ((?h + ?n - ?c) mod ?n) (?c + 1)"
    by (simp only: b' c' h' tail_after_push[OF n(1,3)])
  also have "\<dots> = ring_list (buf s) ?n ((?h + ?n - ?c) mod ?n) ?c @ [v]"
    using n(1,3,2) by (rule ring_list_snoc) (rule refl)
  also have "\<dots> = contents Size s @ [v]" by (simp only: contents_ring[OF assms(1)])
  finally show ?thesis .
qed

lemma contents_push_force:
  assumes "rb_inv Size s" "full_rb Size s"
  shows "contents Size (s\<lparr>buf := (buf s)[unat (head s) := v],
                           head := (if Size \<le> head s + 1 then 0 else head s + 1)\<rparr>)
           = tl (contents Size s) @ [v]"
    (is "contents Size ?s' = _")
proof -
  let ?h = "unat (head s)" and ?c = "unat (numElements s)" and ?n = "unat Size"
  have n: "?h < ?n" "length (buf s) = ?n" "?c = ?n"
    using assms unfolding rb_inv_nat full_rb_nat by linarith+
  have inv': "rb_inv Size ?s'" using assms(1) by (rule rb_inv_push_force)
  have h': "unat (head ?s') = (?h + 1) mod ?n"
    using unat_head_next[OF assms(1)] by simp
  have c': "unat (numElements ?s') = ?n" using n(3) by simp
  have b': "buf ?s' = (buf s)[?h := v]" by simp
  have hn: "(?h + 1) mod ?n < ?n" using n(1) by (intro mod_less_divisor) linarith
  have t: "(?h + ?n - ?n) mod ?n = ?h"
    using n(1) by (simp only: add_diff_cancel_right' mod_less)
  have "contents Size ?s' =
          ring_list (buf ?s') ?n
            ((unat (head ?s') + ?n - unat (numElements ?s')) mod ?n) (unat (numElements ?s'))"
    using inv' by (rule contents_ring)
  also have "\<dots> = ring_list ((buf s)[?h := v]) ?n ((?h + 1) mod ?n) ?n"
    by (simp only: b' c' h' add_diff_cancel_right' mod_mod_trivial)
  also have "\<dots> = tl (ring_list (buf s) ?n ?h ?n) @ [v]"
    using n(1,2) by (rule ring_list_overwrite)
  also have "\<dots> = tl (contents Size s) @ [v]"
    by (simp only: contents_ring[OF assms(1)] n(3) t)
  finally show ?thesis .
qed

lemma contents_dec:
  assumes "rb_inv Size s" "\<not> empty_rb s"
  shows "contents Size (s\<lparr>numElements := numElements s - 1\<rparr>) = tl (contents Size s)"
    (is "contents Size ?s' = _")
proof -
  let ?h = "unat (head s)" and ?c = "unat (numElements s)" and ?n = "unat Size"
  have n: "?h < ?n" "0 < ?c" "?c \<le> ?n"
    using assms unfolding rb_inv_nat empty_rb_nat by linarith+
  have inv': "rb_inv Size ?s'" using assms by (rule rb_inv_dec)
  have c': "unat (numElements ?s') = ?c - 1"
    using unat_count_dec[OF assms(2)] by simp
  have hb: "head ?s' = head s" "buf ?s' = buf s" by simp_all
  have "contents Size ?s' =
          ring_list (buf ?s') ?n
            ((unat (head ?s') + ?n - unat (numElements ?s')) mod ?n) (unat (numElements ?s'))"
    using inv' by (rule contents_ring)
  also have "\<dots> = ring_list (buf s) ?n (((?h + ?n - ?c) mod ?n + 1) mod ?n) (?c - 1)"
    by (simp only: hb c' tail_after_poll[OF n])
  also have "\<dots> = tl (ring_list (buf s) ?n ((?h + ?n - ?c) mod ?n) ?c)"
    by (rule ring_list_tl)
  also have "\<dots> = tl (contents Size s)" by (simp only: contents_ring[OF assms(1)])
  finally show ?thesis .
qed

lemma hd_contents:
  assumes "rb_inv Size s" "\<not> empty_rb s"
  shows "hd (contents Size s) = buf s ! unat (tail_index Size s)"
proof -
  have n: "0 < unat (numElements s)" "0 < unat Size"
    using assms unfolding rb_inv_nat empty_rb_nat by linarith+
  have "hd (contents Size s) =
          buf s ! ((unat (head s) + unat Size - unat (numElements s)) mod unat Size)"
    unfolding contents_ring[OF assms(1)] using n(1)
    by (rule ring_list_hd) (simp only: mod_less_divisor n(2))
  then show ?thesis by (simp only: unat_tail_index[OF assms(1)])
qed

section \<open>Peeking and sequences of calls\<close>


lemma peek_none_eq:
  assumes "\<not> index < size_rb s"
  shows "peek Size index s = Inr (None, s)"
  using assms by (simp add: peek_def)

lemma peek_slot_in_buf:
  assumes "rb_inv Size s"
  shows "unat ((tail_index Size s + index) mod Size) < length (buf s)"
proof -
  have "0 < unat Size" "length (buf s) = unat Size"
    using assms unfolding rb_inv_nat by linarith+
  then show ?thesis by (simp only: unat_mod mod_less_divisor)
qed

lemma peek_some_eq:
  assumes "rb_inv Size s" "index < size_rb s"
  shows "peek Size index s = Inr (Some ((tail_index Size s + index) mod Size), s)"
proof -
  have "Size \<noteq> 0" using rb_inv_pos[OF assms(1)] by simp
  then show ?thesis
    using assms(2) peek_slot_in_buf[OF assms(1), of index]
    by (simp add: peek_def Let_def max_size_def)
qed

lemma step_inv:
  assumes "rb_inv Size s" "call_ok Size c"
  shows "\<exists>s'. step Size c s = Inr s' \<and> rb_inv Size s'"
proof (cases c)
  case Clear
  have "length (buf s) = unat Size" using assms(1) by (simp only: rb_inv_nat)
  then have "rb_inv Size (clear s)" using rb_inv_pos[OF assms(1)] by (rule rb_inv_clear)
  with Clear show ?thesis by simp
next
  case (Push obj force)
  show ?thesis
  proof (cases "full_rb Size s")
    case True
    then show ?thesis
      using Push assms(1) rb_inv_push_force[OF assms(1), of obj]
      by (cases force) (simp_all add: push_force_eq push_reject_eq)
  next
    case False
    then show ?thesis
      using Push assms(1) rb_inv_push_space[OF assms(1) False, of obj]
      by (simp add: push_space_eq)
  qed
next
  case (Add obj force)
  show ?thesis
  proof (cases "full_rb Size s")
    case True
    then show ?thesis
      using Add assms(1) rb_inv_push_force[OF assms(1), of obj]
      by (cases force) (simp_all add: add_def push_force_eq push_reject_eq)
  next
    case False
    then show ?thesis
      using Add assms(1) rb_inv_push_space[OF assms(1) False, of obj]
      by (simp add: add_def push_space_eq)
  qed
next
  case (Peek index)
  then show ?thesis
    using assms(1) by (cases "index < size_rb s") (simp_all add: peek_some_eq peek_none_eq)
next
  case (Poll d)
  then have "dest_ok Size d" using assms(2) by simp
  from poll_inv[OF assms(1) this]
  obtain r d' s' where "poll Size d s = Inr (r, d', s')" "rb_inv Size s'" by blast
  with Poll show ?thesis by simp
next
  case Poll0
  then show ?thesis
    using assms(1) rb_inv_dec[OF assms(1)]
    by (cases "empty_rb s") (simp_all add: poll0_def)
next
  case (Pull dst)
  then have "ptr_ok Size dst" using assms(2) by simp
  from pull_inv[OF assms(1) this]
  obtain r d' s' where "pull Size dst s = Inr (r, d', s')" "rb_inv Size s'" by blast
  with Pull show ?thesis by simp
qed

lemma run_inv:
  assumes "rb_inv Size s" "list_all (call_ok Size) cs"
  shows "\<exists>s'. run Size cs s = Inr s' \<and> rb_inv Size s'"
  using assms
proof (induction cs arbitrary: s)
  case Nil
  then show ?case by simp
next
  case (Cons c cs)
  have ok: "call_ok Size c" "list_all (call_ok Size) cs" using Cons.prems(2) by simp_all
  from step_inv[OF Cons.prems(1) ok(1)]
  obtain s1 where s1: "step Size c s = Inr s1" "rb_inv Size s1" by blast
  from Cons.IH[OF s1(2) ok(2)] show ?case using s1(1) by simp
qed

lemma push_all_contents:
  assumes "rb_inv Size s" "unat (size_rb s) + length vs \<le> unat Size"
  shows "\<exists>s1. push_all Size vs s = Inr (replicate (length vs) True, s1) \<and>
           rb_inv Size s1 \<and> contents Size s1 = contents Size s @ vs"
  using assms
proof (induction vs arbitrary: s)
  case Nil
  then show ?case by simp
next
  case (Cons v vs)
  let ?s' = "s\<lparr>buf := (buf s)[unat (head s) := v],
                  head := (if Size \<le> head s + 1 then 0 else head s + 1),
                  numElements := numElements s + 1\<rparr>"
  have nf: "\<not> full_rb Size s"
    using Cons.prems(2) unfolding full_rb_nat size_rb_def by simp
  have p: "push Size v False s = Inr (True, ?s')"
    using Cons.prems(1) nf by (rule push_space_eq)
  have inv': "rb_inv Size ?s'" using Cons.prems(1) nf by (rule rb_inv_push_space)
  have c': "contents Size ?s' = contents Size s @ [v]"
    using Cons.prems(1) nf by (rule contents_push_space)
  have "unat (size_rb ?s') = unat (size_rb s) + 1"
    using unat_count_inc[OF Cons.prems(1) nf] by (simp add: size_rb_def)
  then have "unat (size_rb ?s') + length vs \<le> unat Size"
    using Cons.prems(2) by simp
  from Cons.IH[OF inv' this]
  obtain s1 where s1: "push_all Size vs ?s' = Inr (replicate (length vs) True, s1)"
    "rb_inv Size s1" "contents Size s1 = contents Size ?s' @ vs" by blast
  have "push_all Size (v # vs) s = Inr (replicate (length (v # vs)) True, s1)"
    using p s1(1) by simp
  moreover have "contents Size s1 = contents Size s @ v # vs"
    using s1(3) c' by simp
  ultimately show ?case using s1(2) by blast
qed

lemma poll_n_contents:
  assumes "rb_inv Size s" "k \<le> unat (size_rb s)"
  shows "\<exists>s2. poll_n Size k d s = Inr (map (Pair True) (take k (contents Size s)), s2) \<and>
           rb_inv Size s2 \<and> contents Size s2 = drop k (contents Size s)"
  using assms
proof (induction k arbitrary: s d)
  case 0
  then show ?case by simp
next
  case (Suc k)
  let ?s' = "s\<lparr>numElements := numElements s - 1\<rparr>"
  let ?x = "buf s ! unat (tail_index Size s)"
  have ne: "\<not> empty_rb s"
    using Suc.prems(2) unfolding empty_rb_nat size_rb_def by simp
  have p: "poll Size (Outside d) s = Inr (True, Outside ?x, ?s')"
    using Suc.prems(1) ne by (rule poll_eq)
  have inv': "rb_inv Size ?s'" using Suc.prems(1) ne by (rule rb_inv_dec)
  have c': "contents Size ?s' = tl (contents Size s)"
    using Suc.prems(1) ne by (rule contents_dec)
  have x: "hd (contents Size s) = ?x" using Suc.prems(1) ne by (rule hd_contents)
  have nn: "contents Size s \<noteq> []"
    using Suc.prems(2) length_contents[of Size s] by auto
  have "unat (size_rb ?s') = unat (size_rb s) - 1"
    using unat_count_dec[OF ne] by (simp add: size_rb_def)
  then have "k \<le> unat (size_rb ?s')" using Suc.prems(2) by simp
  from Suc.IH[OF inv' this, of ?x]
  obtain s2 where s2:
    "poll_n Size k ?x ?s' = Inr (map (Pair True) (take k (contents Size ?s')), s2)"
    "rb_inv Size s2" "contents Size s2 = drop k (contents Size ?s')" by blast
  have "take (Suc k) (contents Size s) = ?x # take k (tl (contents Size s))"
    using nn x by (cases "contents Size s") simp_all
  then have "poll_n Size (Suc k) d s
               = Inr (map (Pair True) (take (Suc k) (contents Size s)), s2)"
    using p s2(1) c' by (simp add: read_ref_def)
  moreover have "contents Size s2 = drop (Suc k) (contents Size s)"
    using s2(3) c' by (simp add: drop_Suc)
  ultimately show ?case using s2(2) by blast
qed

lemma contents_empty:
  assumes "empty_rb s"
  shows "contents Size s = []"
  using assms by (simp add: contents_def empty_rb_def)

lemma empty_contents:
  assumes "contents Size s = []"
  shows "empty_rb s"
proof -
  have "unat (size_rb s) = 0" using assms length_contents[of Size s] by simp
  then show ?thesis by (simp only: empty_rb_def unat_0_iff)
qed

lemma unat_peek_slot:
  assumes "rb_inv Size s" "index < size_rb s" "object_size_ok Size"
  shows "unat ((tail_index Size s + index) mod Size)
           = (unat (tail_index Size s) + unat index) mod unat Size"
proof -
  have t: "unat (tail_index Size s) < unat Size"
    using tail_in_buf[OF assms(1)] assms(1) by (simp only: rb_inv_nat)
  have "unat index < unat (numElements s)"
    using assms(2) by (simp only: size_rb_def word_less_nat_alt)
  moreover have "unat (numElements s) \<le> unat Size" using assms(1) by (simp only: rb_inv_nat)
  ultimately have "unat (tail_index Size s) + unat index < 2 * unat Size" using t by linarith
  then have "unat (tail_index Size s) + unat index < 2 ^ LENGTH('a)"
    using assms(3) unfolding object_size_ok_def by linarith
  then have "unat (tail_index Size s + index) = unat (tail_index Size s) + unat index"
    by (simp only: unat_plus_if' if_True)
  then show ?thesis by (simp only: unat_mod)
qed

text \<open>
  The bound is needed. With a 16-bit \<^verbatim>\<open>size_t\<close> and a capacity of 40000, which no
  array can have, the sum in \<^verbatim>\<open>peek\<close> wraps: on a full buffer with the head at slot
  39999, index 30000 leads to slot 4463 instead of slot 29999.
\<close>

lemma peek_wraps_without_bound:
  "\<not> object_size_ok (40000 :: 16 word) \<and>
   rb_inv 40000 \<lparr>buf = replicate 40000 (0 :: int), head = 39999 :: 16 word, numElements = 40000\<rparr> \<and>
   peek 40000 30000 \<lparr>buf = replicate 40000 (0 :: int), head = 39999 :: 16 word, numElements = 40000\<rparr>
     = Inr (Some 4463, \<lparr>buf = replicate 40000 0, head = 39999, numElements = 40000\<rparr>) \<and>
   (unat (tail_index 40000 \<lparr>buf = replicate 40000 (0 :: int), head = 39999 :: 16 word, numElements = 40000\<rparr>)
      + unat (30000 :: 16 word)) mod unat (40000 :: 16 word) = 29999"
  by (simp add: object_size_ok_def rb_inv_def peek_def tail_index_def full_rb_def size_rb_def
      max_size_def Let_def)

lemma nth_contents:
  assumes "i < unat (size_rb s)"
  shows "contents Size s ! i = buf s ! ((unat (tail_index Size s) + i) mod unat Size)"
  using assms by (simp add: contents_def)

lemma uint_tail_index:
  assumes "rb_inv Size s"
  shows "uint (tail_index Size s)
           = (uint (head s) - uint (numElements s) + uint Size) mod uint Size"
proof -
  let ?h = "unat (head s)" and ?c = "unat (numElements s)" and ?n = "unat Size"
  have c: "?c \<le> ?h + ?n" using assms unfolding rb_inv_nat by linarith
  have "uint (tail_index Size s) = int (unat (tail_index Size s))" by (rule uint_nat)
  also have "\<dots> = int ((?h + ?n - ?c) mod ?n)" by (simp only: unat_tail_index[OF assms])
  also have "\<dots> = int (?h + ?n - ?c) mod int ?n" by (rule zmod_int)
  also have "int (?h + ?n - ?c) = int ?h - int ?c + int ?n" using c by linarith
  finally show ?thesis by (simp only: uint_nat)
qed

lemma peek_contents:
  assumes "rb_inv Size s" "index < size_rb s" "object_size_ok Size"
  shows "\<exists>p. peek Size index s = Inr (Some p, s) \<and>
           unat p = (unat (tail_index Size s) + unat index) mod unat Size \<and>
           deref s p = contents Size s ! unat index"
proof -
  let ?p = "(tail_index Size s + index) mod Size"
  have p: "peek Size index s = Inr (Some ?p, s)" using assms(1,2) by (rule peek_some_eq)
  have u: "unat ?p = (unat (tail_index Size s) + unat index) mod unat Size"
    using assms by (rule unat_peek_slot)
  have "unat index < unat (size_rb s)" using assms(2) by (simp only: word_less_nat_alt)
  then have "contents Size s ! unat index
               = buf s ! ((unat (tail_index Size s) + unat index) mod unat Size)"
    by (rule nth_contents)
  then have "deref s ?p = contents Size s ! unat index" by (simp only: deref_def u)
  with p u show ?thesis by blast
qed

lemma uint_count_dec:
  assumes "\<not> empty_rb s"
  shows "uint (numElements s - 1) = uint (numElements s) - 1"
proof -
  have "0 < unat (numElements s)" using assms unfolding empty_rb_nat by linarith
  then have "int (unat (numElements s) - 1) = int (unat (numElements s)) - 1" by linarith
  then show ?thesis by (simp only: uint_nat unat_count_dec[OF assms])
qed

section \<open>The claims\<close>

text \<open>
  Claim C1 (round trip). Start from any empty buffer of capacity \<^verbatim>\<open>Size\<close> that
  satisfies the invariant, wherever its head is. Pushing the \<^verbatim>\<open>Size\<close> values \<open>vs\<close>
  with \<^verbatim>\<open>force = false\<close> succeeds every time; \<^verbatim>\<open>Size\<close> calls of
  \<^verbatim>\<open>poll(destination)\<close> then all return true and deliver exactly \<open>vs\<close>, in the
  same order; afterwards \<^verbatim>\<open>empty()\<close> holds and \<^verbatim>\<open>size()\<close> is 0. The values need
  not even be distinct.
\<close>

theorem round_trip:
  assumes "rb_inv Size s" "empty_rb s" "length vs = unat (max_size Size)"
  shows "\<exists>s1 s2. push_all Size vs s = Inr (replicate (length vs) True, s1) \<and>
           poll_n Size (length vs) d s1 = Inr (map (Pair True) vs, s2) \<and>
           empty_rb s2 \<and> size_rb s2 = 0"
proof -
  have e: "contents Size s = []" using assms(2) by (rule contents_empty)
  have "unat (size_rb s) = 0" using assms(2) by (simp add: empty_rb_def)
  then have "unat (size_rb s) + length vs \<le> unat Size"
    using assms(3) by (simp add: max_size_def)
  from push_all_contents[OF assms(1) this]
  obtain s1 where s1: "push_all Size vs s = Inr (replicate (length vs) True, s1)"
    "rb_inv Size s1" "contents Size s1 = vs" using e by auto
  have "length vs \<le> unat (size_rb s1)"
    using length_contents[of Size s1] s1(3) by simp
  from poll_n_contents[OF s1(2) this, of d]
  obtain s2 where s2: "poll_n Size (length vs) d s1 = Inr (map (Pair True) vs, s2)"
    "contents Size s2 = []" using s1(3) by auto
  have em: "empty_rb s2" using s2(2) by (rule empty_contents)
  then have "size_rb s2 = 0" by (simp only: empty_rb_def)
  with s1(1) s2(1) em show ?thesis by blast
qed

text \<open>The statement at a sample object.\<close>

theorem round_trip_witness:
  "rb_inv 3 ex_empty \<and> empty_rb ex_empty \<and> length [1, 2, 3 :: int] = unat (max_size (3 :: 16 word)) \<and>
   (\<exists>s1 s2. push_all 3 [1, 2, 3] ex_empty = Inr (replicate (length [1, 2, 3 :: int]) True, s1) \<and>
      poll_n 3 (length [1, 2, 3 :: int]) 0 s1 = Inr (map (Pair True) [1, 2, 3], s2) \<and>
      empty_rb s2 \<and> size_rb s2 = 0) \<and>
   push_all 3 [1, 2, 3] ex_empty
     = Inr ([True, True, True], \<lparr>buf = [2, 3, 1], head = 2, numElements = 3\<rparr>) \<and>
   poll_n 3 3 0 \<lparr>buf = [2, 3, 1 :: int], head = 2 :: 16 word, numElements = 3\<rparr>
     = Inr ([(True, 1), (True, 2), (True, 3)], \<lparr>buf = [2, 3, 1], head = 2, numElements = 0\<rparr>)"
proof -
  have h1: "rb_inv 3 ex_empty" by code_simp
  have h2: "empty_rb ex_empty" by code_simp
  have h3: "length [1, 2, 3 :: int] = unat (max_size (3 :: 16 word))" by code_simp
  have e1: "push_all 3 [1, 2, 3] ex_empty
              = Inr ([True, True, True], \<lparr>buf = [2, 3, 1], head = 2, numElements = 3\<rparr>)"
    by code_simp
  have e2: "poll_n 3 3 0 \<lparr>buf = [2, 3, 1 :: int], head = 2 :: 16 word, numElements = 3\<rparr>
              = Inr ([(True, 1), (True, 2), (True, 3)],
                     \<lparr>buf = [2, 3, 1], head = 2, numElements = 0\<rparr>)"
    by code_simp
  show ?thesis using h1 h2 h3 e1 e2 round_trip[OF h1 h2 h3, of 0] by blast
qed

text \<open>
  Claim C2 (the invariant is preserved). For a capacity of at least 1, run any
  sequence of \<^verbatim>\<open>push\<close>, \<^verbatim>\<open>add\<close> (with or without force), \<^verbatim>\<open>peek\<close>, \<^verbatim>\<open>poll\<close>,
  \<^verbatim>\<open>pull\<close> and \<^verbatim>\<open>clear\<close> calls on a freshly constructed buffer, the destinations
  being objects outside the array or existing slots of it: the sequence runs to its
  end without a fault, and in the state reached the count lies between 0 and
  \<^verbatim>\<open>Size\<close> and the head between 0 and \<^verbatim>\<open>Size - 1\<close>, so \<^verbatim>\<open>size()\<close> never exceeds
  \<^verbatim>\<open>max_size()\<close>. Every reachable state is the end of such a sequence.
\<close>

theorem invariant_reachable:
  assumes "0 < Size" "length (buf raw) = unat Size" "list_all (call_ok Size) calls"
  shows "\<exists>s. run Size calls (construct raw) = Inr s \<and>
           0 \<le> uint (numElements s) \<and> uint (numElements s) \<le> uint Size \<and>
           0 \<le> uint (head s) \<and> uint (head s) < uint Size \<and>
           0 \<le> uint (size_rb s) \<and> size_rb s \<le> max_size Size \<and>
           length (buf s) = unat Size"
proof -
  have "rb_inv Size (construct raw)"
    unfolding construct_def using assms(2,1) by (rule rb_inv_clear)
  from run_inv[OF this assms(3)]
  obtain s where s: "run Size calls (construct raw) = Inr s" "rb_inv Size s" by blast
  have "uint (numElements s) \<le> uint Size" "uint (head s) < uint Size"
    "size_rb s \<le> max_size Size" "length (buf s) = unat Size"
    using s(2) by (simp_all add: rb_inv_def word_le_def word_less_alt size_rb_def max_size_def)
  with s(1) show ?thesis by auto
qed

text \<open>The statement at a sample object.\<close>

theorem invariant_reachable_witness:
  "(0 :: 16 word) < 3 \<and> length (buf ex_raw) = unat (3 :: 16 word) \<and>
   list_all (call_ok 3) ex_calls \<and>
   (\<exists>s. run 3 ex_calls (construct ex_raw) = Inr s \<and>
      0 \<le> uint (numElements s) \<and> uint (numElements s) \<le> uint (3 :: 16 word) \<and>
      0 \<le> uint (head s) \<and> uint (head s) < uint (3 :: 16 word) \<and>
      0 \<le> uint (size_rb s) \<and> size_rb s \<le> max_size 3 \<and>
      length (buf s) = unat (3 :: 16 word)) \<and>
   run 3 ex_calls (construct ex_raw) = Inr \<lparr>buf = [6, 7, 7], head = 1, numElements = 1\<rparr>"
proof -
  have h1: "(0 :: 16 word) < 3" by simp
  have h2: "length (buf ex_raw) = unat (3 :: 16 word)" by simp
  have h3: "list_all (call_ok 3) ex_calls" by code_simp
  have e: "run 3 ex_calls (construct ex_raw) = Inr \<lparr>buf = [6, 7, 7], head = 1, numElements = 1\<rparr>"
    by code_simp
  show ?thesis using h1 h2 h3 e invariant_reachable[OF h1 h2 h3] by blast
qed

text \<open>
  Claim C3 (forced push on a full buffer). On a full buffer, \<^verbatim>\<open>push(v, true)\<close>
  returns true, writes \<open>v\<close> into the slot at the head, moves the head one slot on
  modulo \<^verbatim>\<open>Size\<close> and leaves the count at \<^verbatim>\<open>Size\<close>. The queue loses its oldest
  element, which is not handed back (the call returns a truth value only), and gains
  \<open>v\<close> at the end; \<^verbatim>\<open>peek(Size - 1)\<close> then points at \<open>v\<close>. The buffer is one
  that satisfies the invariant and whose array fits the address space
  (\<open>object_size_ok\<close>); only the statement about \<^verbatim>\<open>peek\<close> depends on the latter.
\<close>

theorem push_force_full:
  assumes "rb_inv Size s" "size_rb s = max_size Size" "object_size_ok Size"
  shows "\<exists>s'. push Size v True s = Inr (True, s') \<and>
           buf s' = (buf s)[unat (head s) := v] \<and>
           buf s' ! unat (head s) = v \<and>
           unat (head s') = (unat (head s) + 1) mod unat Size \<and>
           size_rb s' = max_size Size \<and>
           contents Size s' = tl (contents Size s) @ [v] \<and>
           (\<exists>p. peek Size (max_size Size - 1) s' = Inr (Some p, s') \<and> deref s' p = v)"
proof -
  let ?s' = "s\<lparr>buf := (buf s)[unat (head s) := v],
                  head := (if Size \<le> head s + 1 then 0 else head s + 1)\<rparr>"
  have f: "full_rb Size s" using assms(2) by (simp add: full_rb_def)
  have inv': "rb_inv Size ?s'" using assms(1) by (rule rb_inv_push_force)
  have sz: "size_rb ?s' = max_size Size" using assms(2) by (simp add: size_rb_def)
  have c': "contents Size ?s' = tl (contents Size s) @ [v]"
    using assms(1) f by (rule contents_push_force)
  have pos: "0 < Size" using assms(1) by (rule rb_inv_pos)
  then have nz: "Size \<noteq> 0" by (simp only: word_gt_0 not_False_eq_True)
  then have "unat (Size - 1) = unat Size - 1" by (rule unat_minus_one)
  moreover have "0 < unat Size" using nz by (simp only: unat_gt_0 not_False_eq_True)
  ultimately have "unat (Size - 1) < unat Size" by linarith
  then have "Size - 1 < Size" by (simp only: word_less_nat_alt)
  then have idx: "max_size Size - 1 < size_rb ?s'" by (simp only: sz max_size_def)
  from peek_contents[OF inv' idx assms(3)]
  obtain p where p: "peek Size (max_size Size - 1) ?s' = Inr (Some p, ?s')"
    "deref ?s' p = contents Size ?s' ! unat (max_size Size - 1)" by blast
  have len: "length (tl (contents Size s)) = unat (max_size Size - 1)"
    using nz assms(2) by (simp add: length_contents max_size_def unat_minus_one)
  have "contents Size ?s' ! unat (max_size Size - 1) = v"
    unfolding c' len[symmetric] by (rule nth_append_length)
  with p have pk: "\<exists>p. peek Size (max_size Size - 1) ?s' = Inr (Some p, ?s') \<and> deref ?s' p = v"
    by auto
  have "push Size v True s = Inr (True, ?s')" using assms(1) f by (rule push_force_eq)
  moreover have "buf ?s' = (buf s)[unat (head s) := v]" by simp
  moreover have "buf ?s' ! unat (head s) = v" using head_in_buf[OF assms(1)] by simp
  moreover have "unat (head ?s') = (unat (head s) + 1) mod unat Size"
    using unat_head_next[OF assms(1)] by simp
  ultimately show ?thesis using sz c' pk by blast
qed

text \<open>The statement at a sample object.\<close>

theorem push_force_full_witness:
  "rb_inv 3 ex_full \<and> size_rb ex_full = max_size 3 \<and> object_size_ok (3 :: 16 word) \<and>
   (\<exists>s'. push 3 40 True ex_full = Inr (True, s') \<and>
      buf s' = (buf ex_full)[unat (head ex_full) := 40] \<and>
      buf s' ! unat (head ex_full) = 40 \<and>
      unat (head s') = (unat (head ex_full) + 1) mod unat (3 :: 16 word) \<and>
      size_rb s' = max_size 3 \<and>
      contents 3 s' = tl (contents 3 ex_full) @ [40] \<and>
      (\<exists>p. peek 3 (max_size 3 - 1) s' = Inr (Some p, s') \<and> deref s' p = 40)) \<and>
   push 3 40 True ex_full = Inr (True, \<lparr>buf = [10, 40, 30], head = 2, numElements = 3\<rparr>)"
proof -
  have h1: "rb_inv 3 ex_full" by code_simp
  have h2: "size_rb ex_full = max_size 3" by code_simp
  have h3: "object_size_ok (3 :: 16 word)" by (simp add: object_size_ok_def)
  have e: "push 3 40 True ex_full = Inr (True, \<lparr>buf = [10, 40, 30], head = 2, numElements = 3\<rparr>)"
    by code_simp
  show ?thesis using h1 h2 h3 e push_force_full[OF h1 h2 h3, of 40] by blast
qed

text \<open>
  Claim C4 (push with room). On a buffer holding fewer than \<^verbatim>\<open>Size\<close> elements,
  \<^verbatim>\<open>push(v, force)\<close> returns true for either value of \<open>force\<close>, writes \<open>v\<close> into
  the slot at the head, moves the head to \<open>(head + 1) mod Size\<close> and raises the count
  by one; \<open>v\<close> becomes the newest element of the queue.
\<close>

theorem push_not_full:
  assumes "rb_inv Size s" "size_rb s < max_size Size"
  shows "\<exists>s'. push Size v force s = Inr (True, s') \<and>
           buf s' = (buf s)[unat (head s) := v] \<and>
           buf s' ! unat (head s) = v \<and>
           unat (head s') = (unat (head s) + 1) mod unat Size \<and>
           unat (size_rb s') = unat (size_rb s) + 1 \<and>
           contents Size s' = contents Size s @ [v]"
proof -
  let ?s' = "s\<lparr>buf := (buf s)[unat (head s) := v],
                  head := (if Size \<le> head s + 1 then 0 else head s + 1),
                  numElements := numElements s + 1\<rparr>"
  have nf: "\<not> full_rb Size s" using assms(2) by (simp add: full_rb_def not_le)
  have "push Size v force s = Inr (True, ?s')" using assms(1) nf by (rule push_space_eq)
  moreover have "buf ?s' = (buf s)[unat (head s) := v]" by simp
  moreover have "buf ?s' ! unat (head s) = v" using head_in_buf[OF assms(1)] by simp
  moreover have "unat (head ?s') = (unat (head s) + 1) mod unat Size"
    using unat_head_next[OF assms(1)] by simp
  moreover have "unat (size_rb ?s') = unat (size_rb s) + 1"
    using unat_count_inc[OF assms(1) nf] by (simp add: size_rb_def)
  moreover have "contents Size ?s' = contents Size s @ [v]"
    using assms(1) nf by (rule contents_push_space)
  ultimately show ?thesis by blast
qed

text \<open>The statement at a sample object.\<close>

theorem push_not_full_witness:
  "rb_inv 3 ex_part \<and> size_rb ex_part < max_size 3 \<and>
   (\<exists>s'. push 3 40 True ex_part = Inr (True, s') \<and>
      buf s' = (buf ex_part)[unat (head ex_part) := 40] \<and>
      buf s' ! unat (head ex_part) = 40 \<and>
      unat (head s') = (unat (head ex_part) + 1) mod unat (3 :: 16 word) \<and>
      unat (size_rb s') = unat (size_rb ex_part) + 1 \<and>
      contents 3 s' = contents 3 ex_part @ [40]) \<and>
   push 3 40 True ex_part = Inr (True, \<lparr>buf = [10, 20, 40], head = 0, numElements = 2\<rparr>)"
proof -
  have h1: "rb_inv 3 ex_part" by code_simp
  have h2: "size_rb ex_part < max_size 3" by code_simp
  have e: "push 3 40 True ex_part = Inr (True, \<lparr>buf = [10, 20, 40], head = 0, numElements = 2\<rparr>)"
    by code_simp
  show ?thesis using h1 h2 e push_not_full[OF h1 h2, of 40 True] by blast
qed

text \<open>
  Claim C5 (a rejected push changes nothing). On a full buffer,
  \<^verbatim>\<open>push(v, false)\<close> returns false and the object afterwards is the object before:
  head, count and every slot of the array are unchanged.
\<close>

theorem push_full_rejected:
  assumes "size_rb s = max_size Size"
  shows "push Size v False s = Inr (False, s)"
  using assms by (simp add: push_def full_rb_def)

text \<open>The statement at a sample object.\<close>

theorem push_full_rejected_witness:
  "size_rb ex_full = max_size 3 \<and> push 3 40 False ex_full = Inr (False, ex_full)"
proof -
  have h: "size_rb ex_full = max_size 3" by code_simp
  show ?thesis using h push_full_rejected[OF h, of 40] by simp
qed

text \<open>
  Claim C6 (peek). On a buffer that satisfies the invariant and whose array fits the
  address space (\<open>object_size_ok\<close>), \<^verbatim>\<open>peek(index)\<close> returns \<^verbatim>\<open>nullptr\<close> exactly
  when \<open>index \<ge> size()\<close>. Otherwise it points at slot
  \<open>(tail_index() + index) mod Size\<close>, the sum and the remainder taken over the natural
  numbers, and that slot holds the \<open>index\<close>-th oldest element of the queue (index 0
  the oldest, \<open>size() - 1\<close> the newest). The tail is \<open>(head - count + Size) mod Size\<close>
  over the integers, and it is the head when the buffer is full. In every case the
  object is left as it was.
\<close>

theorem peek_contract:
  assumes "rb_inv Size s" "object_size_ok Size"
  shows "((\<exists>s'. peek Size index s = Inr (None, s')) \<longleftrightarrow> size_rb s \<le> index) \<and>
         (index < size_rb s \<longrightarrow>
            (\<exists>p. peek Size index s = Inr (Some p, s) \<and>
               unat p = (unat (tail_index Size s) + unat index) mod unat (max_size Size) \<and>
               deref s p = contents Size s ! unat index)) \<and>
         (\<exists>r. peek Size index s = Inr (r, s)) \<and>
         (\<not> full_rb Size s \<longrightarrow>
            uint (tail_index Size s)
              = (uint (head s) - uint (size_rb s) + uint (max_size Size)) mod uint (max_size Size)) \<and>
         (size_rb s = max_size Size \<longrightarrow> tail_index Size s = head s)"
proof (intro conjI impI)
  show "(\<exists>s'. peek Size index s = Inr (None, s')) \<longleftrightarrow> size_rb s \<le> index"
  proof (cases "index < size_rb s")
    case True
    then show ?thesis using peek_some_eq[OF assms(1) True] by (simp add: not_le)
  next
    case False
    then show ?thesis using peek_none_eq[OF False, of Size] by (simp add: not_less)
  qed
next
  assume "index < size_rb s"
  from peek_contents[OF assms(1) this assms(2)]
  show "\<exists>p. peek Size index s = Inr (Some p, s) \<and>
          unat p = (unat (tail_index Size s) + unat index) mod unat (max_size Size) \<and>
          deref s p = contents Size s ! unat index"
    by (simp only: max_size_def)
next
  show "\<exists>r. peek Size index s = Inr (r, s)"
    using peek_some_eq[OF assms(1), of index] peek_none_eq[of index s Size]
    by (cases "index < size_rb s") simp_all
next
  show "uint (tail_index Size s)
          = (uint (head s) - uint (size_rb s) + uint (max_size Size)) mod uint (max_size Size)"
    using uint_tail_index[OF assms(1)] by (simp only: size_rb_def max_size_def)
next
  assume "size_rb s = max_size Size"
  then show "tail_index Size s = head s" by (simp add: tail_index_def full_rb_def)
qed

text \<open>The statement at a sample object.\<close>

theorem peek_contract_witness:
  "rb_inv 3 ex_part \<and> object_size_ok (3 :: 16 word) \<and>
   (0 :: 16 word) < size_rb ex_part \<and> \<not> full_rb 3 ex_part \<and>
   \<not> size_rb ex_part \<le> 0 \<and>
   (\<exists>p. peek 3 0 ex_part = Inr (Some p, ex_part) \<and>
      unat p = (unat (tail_index 3 ex_part) + unat (0 :: 16 word)) mod unat (max_size (3 :: 16 word)) \<and>
      deref ex_part p = contents 3 ex_part ! unat (0 :: 16 word)) \<and>
   uint (tail_index 3 ex_part)
     = (uint (head ex_part) - uint (size_rb ex_part) + uint (max_size (3 :: 16 word)))
         mod uint (max_size (3 :: 16 word)) \<and>
   \<not> (\<exists>s'. peek 3 0 ex_part = Inr (None, s')) \<and>
   rb_inv 3 ex_full \<and> size_rb ex_full = max_size 3 \<and> size_rb ex_full \<le> 3 \<and>
   tail_index 3 ex_full = head ex_full \<and>
   (\<exists>s'. peek 3 3 ex_full = Inr (None, s')) \<and>
   peek 3 0 ex_part = Inr (Some 1, ex_part) \<and> deref ex_part 1 = 20"
proof -
  have h1: "rb_inv 3 ex_part" by code_simp
  have h2: "object_size_ok (3 :: 16 word)" by (simp add: object_size_ok_def)
  have h3: "(0 :: 16 word) < size_rb ex_part" by code_simp
  have h4: "\<not> full_rb 3 ex_part" by code_simp
  have h5: "\<not> size_rb ex_part \<le> 0" by code_simp
  have g1: "rb_inv 3 ex_full" by code_simp
  have g2: "size_rb ex_full = max_size 3" by code_simp
  have g3: "size_rb ex_full \<le> 3" by code_simp
  have e: "peek 3 0 ex_part = Inr (Some 1, ex_part)" "deref ex_part 1 = 20" by code_simp+
  show ?thesis
    using h1 h2 h3 h4 h5 g1 g2 g3 e
      peek_contract[OF h1 h2, of 0] peek_contract[OF g1 h2, of 3]
    by blast
qed

text \<open>
  Claim C7 (poll), as stated: \<^verbatim>\<open>poll(destination)\<close> never modifies an element of
  the array. That fails when the destination is itself a slot of the array: on the
  full buffer \<open>{10, 20, 30}\<close> with the head at slot 1, \<^verbatim>\<open>peek(1)\<close> points at slot 2,
  and \<^verbatim>\<open>poll(*peek(1))\<close> stores the oldest element, 20, there.
\<close>

theorem poll_store_counterexample:
  "rb_inv 3 ex_full \<and> \<not> empty_rb ex_full \<and>
   peek 3 1 ex_full = Inr (Some 2, ex_full) \<and>
   poll 3 (Slot 2) ex_full
     = Inr (True, Slot 2, \<lparr>buf = [10, 20, 20], head = 1, numElements = 2\<rparr>) \<and>
   buf \<lparr>buf = [10, 20, 20 :: int], head = 1 :: 16 word, numElements = 2\<rparr> \<noteq> buf ex_full"
  by code_simp

text \<open>
  Claim C7 (poll), amended. On a buffer that satisfies the invariant, with a
  destination that exists: when the buffer is not empty, \<^verbatim>\<open>poll(destination)\<close>
  returns true, the destination afterwards holds the element that was in the slot at
  \<^verbatim>\<open>tail_index()\<close>, which is the oldest of the queue, the count is one lower and
  the head is unchanged. With the destination outside the array no element of the
  array is modified and the queue loses its front; with the destination a slot of the
  array, that slot receives the oldest element and no other slot changes. The popped
  slot keeps its old value in both cases. When the buffer is empty,
  \<^verbatim>\<open>poll(destination)\<close> returns false and leaves destination and buffer as they
  were.
\<close>

theorem poll_contract:
  assumes "rb_inv Size s" "dest_ok Size dst"
  shows "(\<not> empty_rb s \<longrightarrow>
            (\<exists>dst' s'. poll Size dst s = Inr (True, dst', s') \<and>
               read_ref s' dst' = buf s ! unat (tail_index Size s) \<and>
               buf s ! unat (tail_index Size s) = hd (contents Size s) \<and>
               uint (size_rb s') = uint (size_rb s) - 1 \<and>
               head s' = head s \<and>
               buf s' = (case dst of
                           Outside d \<Rightarrow> buf s
                         | Slot p \<Rightarrow> (buf s)[unat p := buf s ! unat (tail_index Size s)]) \<and>
               buf s' ! unat (tail_index Size s) = buf s ! unat (tail_index Size s) \<and>
               (case dst of
                  Outside d \<Rightarrow> contents Size s' = tl (contents Size s)
                | Slot p \<Rightarrow> True))) \<and>
         (empty_rb s \<longrightarrow> poll Size dst s = Inr (False, dst, s))"
proof (intro conjI impI)
  assume ne: "\<not> empty_rb s"
  let ?x = "buf s ! unat (tail_index Size s)"
  have x: "?x = hd (contents Size s)" using hd_contents[OF assms(1) ne] by (rule sym)
  show "\<exists>dst' s'. poll Size dst s = Inr (True, dst', s') \<and>
          read_ref s' dst' = ?x \<and> ?x = hd (contents Size s) \<and>
          uint (size_rb s') = uint (size_rb s) - 1 \<and>
          head s' = head s \<and>
          buf s' = (case dst of Outside d \<Rightarrow> buf s | Slot p \<Rightarrow> (buf s)[unat p := ?x]) \<and>
          buf s' ! unat (tail_index Size s) = ?x \<and>
          (case dst of
             Outside d \<Rightarrow> contents Size s' = tl (contents Size s)
           | Slot p \<Rightarrow> True)"
  proof (cases dst)
    case (Outside d)
    let ?s' = "s\<lparr>numElements := numElements s - 1\<rparr>"
    have "poll Size dst s = Inr (True, Outside ?x, ?s')"
      unfolding Outside using assms(1) ne by (rule poll_eq)
    moreover have "read_ref ?s' (Outside ?x) = ?x" by (simp add: read_ref_def)
    moreover have "uint (size_rb ?s') = uint (size_rb s) - 1"
      using uint_count_dec[OF ne] by (simp add: size_rb_def)
    moreover have "head ?s' = head s" by simp
    moreover have "buf ?s' = (case dst of Outside d \<Rightarrow> buf s | Slot p \<Rightarrow> (buf s)[unat p := ?x])"
      using Outside by simp
    moreover have "buf ?s' ! unat (tail_index Size s) = ?x" by simp
    moreover have "case dst of
                     Outside d \<Rightarrow> contents Size ?s' = tl (contents Size s)
                   | Slot p \<Rightarrow> True"
      using Outside contents_dec[OF assms(1) ne] by simp
    ultimately show ?thesis using x by blast
  next
    case (Slot p)
    let ?s' = "s\<lparr>buf := (buf s)[unat p := ?x], numElements := numElements s - 1\<rparr>"
    have p: "p < Size" using assms(2) Slot by (simp add: dest_ok_def)
    have len: "length (buf s) = unat Size" using assms(1) by (simp only: rb_inv_nat)
    have pl: "unat p < length (buf s)"
      using p unfolding len by (simp only: word_less_nat_alt)
    have "poll Size dst s = Inr (True, Slot p, ?s')"
      unfolding Slot using assms(1) ne p by (rule poll_slot_eq)
    moreover have "read_ref ?s' (Slot p) = ?x" using pl by (simp add: read_ref_def)
    moreover have "uint (size_rb ?s') = uint (size_rb s) - 1"
      using uint_count_dec[OF ne] by (simp add: size_rb_def)
    moreover have "head ?s' = head s" by simp
    moreover have "buf ?s' = (case dst of Outside d \<Rightarrow> buf s | Slot p \<Rightarrow> (buf s)[unat p := ?x])"
      using Slot by simp
    moreover have "buf ?s' ! unat (tail_index Size s) = ?x"
      using pl by (cases "unat p = unat (tail_index Size s)") simp_all
    moreover have "case dst of
                     Outside d \<Rightarrow> contents Size ?s' = tl (contents Size s)
                   | Slot p \<Rightarrow> True"
      using Slot by simp
    ultimately show ?thesis using x by blast
  qed
next
  assume "empty_rb s"
  then show "poll Size dst s = Inr (False, dst, s)" by (rule poll_empty_eq)
qed

text \<open>
  The amended statement at sample objects: a destination outside the array, a
  destination inside it, and an empty buffer.
\<close>

theorem poll_contract_witness:
  "rb_inv 3 ex_part \<and> dest_ok (3 :: 16 word) (Outside (0 :: int)) \<and> \<not> empty_rb ex_part \<and>
   (\<exists>dst' s'. poll 3 (Outside 0) ex_part = Inr (True, dst', s') \<and>
      read_ref s' dst' = buf ex_part ! unat (tail_index 3 ex_part) \<and>
      buf ex_part ! unat (tail_index 3 ex_part) = hd (contents 3 ex_part) \<and>
      uint (size_rb s') = uint (size_rb ex_part) - 1 \<and>
      head s' = head ex_part \<and>
      buf s' = buf ex_part \<and>
      buf s' ! unat (tail_index 3 ex_part) = buf ex_part ! unat (tail_index 3 ex_part) \<and>
      contents 3 s' = tl (contents 3 ex_part)) \<and>
   rb_inv 3 ex_full \<and> dest_ok (3 :: 16 word) (Slot 2 :: (int, 16 word) object_ref) \<and>
   \<not> empty_rb ex_full \<and>
   (\<exists>dst' s'. poll 3 (Slot 2) ex_full = Inr (True, dst', s') \<and>
      read_ref s' dst' = buf ex_full ! unat (tail_index 3 ex_full) \<and>
      buf ex_full ! unat (tail_index 3 ex_full) = hd (contents 3 ex_full) \<and>
      uint (size_rb s') = uint (size_rb ex_full) - 1 \<and>
      head s' = head ex_full \<and>
      buf s' = (buf ex_full)[unat (2 :: 16 word) := buf ex_full ! unat (tail_index 3 ex_full)] \<and>
      buf s' ! unat (tail_index 3 ex_full) = buf ex_full ! unat (tail_index 3 ex_full)) \<and>
   rb_inv 3 ex_empty \<and> empty_rb ex_empty \<and>
   poll 3 (Outside 0) ex_empty = Inr (False, Outside 0, ex_empty) \<and>
   poll 3 (Outside 0) ex_part
     = Inr (True, Outside 20, \<lparr>buf = [10, 20, 30], head = 2, numElements = 0\<rparr>)"
proof -
  have h1: "rb_inv 3 ex_part" by code_simp
  have h2: "dest_ok (3 :: 16 word) (Outside (0 :: int))" by code_simp
  have h3: "\<not> empty_rb ex_part" by code_simp
  have f1: "rb_inv 3 ex_full" by code_simp
  have f2: "dest_ok (3 :: 16 word) (Slot 2 :: (int, 16 word) object_ref)" by code_simp
  have f3: "\<not> empty_rb ex_full" by code_simp
  have g1: "rb_inv 3 ex_empty" by code_simp
  have g2: "empty_rb ex_empty" by code_simp
  have e: "poll 3 (Outside 0) ex_part
             = Inr (True, Outside 20, \<lparr>buf = [10, 20, 30], head = 2, numElements = 0\<rparr>)"
    by code_simp
  have a: "\<exists>dst' s'. poll 3 (Outside 0) ex_part = Inr (True, dst', s') \<and>
      read_ref s' dst' = buf ex_part ! unat (tail_index 3 ex_part) \<and>
      buf ex_part ! unat (tail_index 3 ex_part) = hd (contents 3 ex_part) \<and>
      uint (size_rb s') = uint (size_rb ex_part) - 1 \<and>
      head s' = head ex_part \<and>
      buf s' = buf ex_part \<and>
      buf s' ! unat (tail_index 3 ex_part) = buf ex_part ! unat (tail_index 3 ex_part) \<and>
      contents 3 s' = tl (contents 3 ex_part)"
    using poll_contract[OF h1 h2] h3 by simp
  have b: "\<exists>dst' s'. poll 3 (Slot 2) ex_full = Inr (True, dst', s') \<and>
      read_ref s' dst' = buf ex_full ! unat (tail_index 3 ex_full) \<and>
      buf ex_full ! unat (tail_index 3 ex_full) = hd (contents 3 ex_full) \<and>
      uint (size_rb s') = uint (size_rb ex_full) - 1 \<and>
      head s' = head ex_full \<and>
      buf s' = (buf ex_full)[unat (2 :: 16 word) := buf ex_full ! unat (tail_index 3 ex_full)] \<and>
      buf s' ! unat (tail_index 3 ex_full) = buf ex_full ! unat (tail_index 3 ex_full)"
    using poll_contract[OF f1 f2] f3 by simp
  have c: "poll 3 (Outside 0) ex_empty = Inr (False, Outside 0, ex_empty)"
    using poll_contract[OF g1 h2] g2 by blast
  show ?thesis using h1 h2 h3 f1 f2 f3 g1 g2 e a b c by blast
qed

text \<open>
  Claim C8 (no access out of range). On an object that satisfies the invariant the
  capacity is at least 1 and every index the operations use lies below it: the head,
  where \<^verbatim>\<open>push\<close> writes, the slot \<^verbatim>\<open>peek\<close> computes for any index, and the tail,
  where \<^verbatim>\<open>poll\<close> reads. None of \<^verbatim>\<open>push\<close>, \<^verbatim>\<open>add\<close>, \<^verbatim>\<open>peek\<close>, \<^verbatim>\<open>poll\<close> and
  \<^verbatim>\<open>pull\<close> faults; for \<^verbatim>\<open>poll\<close> and \<^verbatim>\<open>pull\<close> the destination handed in is an
  object that exists, outside the array or a slot of it.
\<close>

theorem no_out_of_range:
  assumes "rb_inv Size s"
  shows "1 \<le> unat (max_size Size) \<and> length (buf s) = unat (max_size Size) \<and>
         unat (head s) < unat (max_size Size) \<and>
         unat ((tail_index Size s + index) mod max_size Size) < unat (max_size Size) \<and>
         unat (tail_index Size s) < unat (max_size Size) \<and>
         (\<exists>r. push Size v force s = Inr r) \<and>
         (\<exists>r. add Size v force s = Inr r) \<and>
         (\<exists>r. peek Size index s = Inr r) \<and>
         (dest_ok Size d \<longrightarrow> (\<exists>r. poll Size d s = Inr r)) \<and>
         (ptr_ok Size dst \<longrightarrow> (\<exists>r. pull Size dst s = Inr r))"
proof -
  have len: "length (buf s) = unat Size" and h: "unat (head s) < unat Size"
    using assms unfolding rb_inv_nat by linarith+
  have n: "1 \<le> unat Size" using h by linarith
  have pk: "unat ((tail_index Size s + index) mod Size) < unat Size"
    using peek_slot_in_buf[OF assms, of index] by (simp only: len)
  have tl: "unat (tail_index Size s) < unat Size"
    using tail_in_buf[OF assms] by (simp only: len)
  have push: "\<exists>r. push Size v force s = Inr r"
  proof (cases "full_rb Size s")
    case True
    have "push Size v force s =
            Inr (if force
                 then (True, s\<lparr>buf := (buf s)[unat (head s) := v],
                                  head := (if Size \<le> head s + 1 then 0 else head s + 1)\<rparr>)
                 else (False, s))"
      using push_force_eq[OF assms True, of v] push_reject_eq[OF True, of v]
      by (cases force) simp_all
    then show ?thesis by (rule exI)
  next
    case False
    then show ?thesis using push_space_eq[OF assms False, of v force] by blast
  qed
  have peek: "\<exists>r. peek Size index s = Inr r"
    using peek_some_eq[OF assms, of index] peek_none_eq[of index s Size]
    by (cases "index < size_rb s") blast+
  have poll: "\<exists>r. poll Size d s = Inr r" if "dest_ok Size d"
    using poll_inv[OF assms that] by blast
  have pull: "\<exists>r. pull Size dst s = Inr r" if "ptr_ok Size dst"
    using pull_inv[OF assms that] by blast
  from n len h pk tl push peek poll pull
  show ?thesis unfolding max_size_def add_def by blast
qed

text \<open>The statement at a sample object, with a destination inside the array.\<close>

theorem no_out_of_range_witness:
  "rb_inv 3 ex_full \<and>
   dest_ok (3 :: 16 word) (Slot 2 :: (int, 16 word) object_ref) \<and>
   ptr_ok (3 :: 16 word) (Some (Outside (0 :: int))) \<and>
   1 \<le> unat (max_size (3 :: 16 word)) \<and> length (buf ex_full) = unat (max_size (3 :: 16 word)) \<and>
   unat (head ex_full) < unat (max_size (3 :: 16 word)) \<and>
   unat ((tail_index 3 ex_full + 2) mod max_size 3) < unat (max_size (3 :: 16 word)) \<and>
   unat (tail_index 3 ex_full) < unat (max_size (3 :: 16 word)) \<and>
   (\<exists>r. push 3 40 True ex_full = Inr r) \<and>
   (\<exists>r. add 3 40 True ex_full = Inr r) \<and>
   (\<exists>r. peek 3 2 ex_full = Inr r) \<and>
   (\<exists>r. poll 3 (Slot 2) ex_full = Inr r) \<and>
   (\<exists>r. pull 3 (Some (Outside 0)) ex_full = Inr r)"
proof -
  have h1: "rb_inv 3 ex_full" by code_simp
  have h2: "dest_ok (3 :: 16 word) (Slot 2 :: (int, 16 word) object_ref)" by code_simp
  have h3: "ptr_ok (3 :: 16 word) (Some (Outside (0 :: int)))" by code_simp
  show ?thesis
    using h1 h2 h3 no_out_of_range[OF h1, of 2 40 True "Slot 2" "Some (Outside 0)"] by blast
qed

text \<open>
  Claim C10 (aliases). \<^verbatim>\<open>add(obj, force)\<close> is \<^verbatim>\<open>push(obj, force)\<close>. With a
  destination, \<^verbatim>\<open>pull\<close> is \<^verbatim>\<open>poll\<close> on the object pointed at; with
  \<^verbatim>\<open>nullptr\<close> it is the overload \<^verbatim>\<open>poll()\<close>, which returns true exactly when the
  buffer is not empty, lowers the count by one in that case, and leaves the array
  and the head alone.
\<close>

theorem alias_equivalence:
  "add Size obj force s = push Size obj force s \<and>
   pull Size (Some d) s = map_sum id (\<lambda>(r, d', s'). (r, Some d', s')) (poll Size d s) \<and>
   pull Size None s = Inr (fst (poll0 s), None, snd (poll0 s)) \<and>
   fst (poll0 s) = (\<not> empty_rb s) \<and>
   uint (size_rb (snd (poll0 s))) = uint (size_rb s) - (if empty_rb s then 0 else 1) \<and>
   buf (snd (poll0 s)) = buf s \<and> head (snd (poll0 s)) = head s"
proof (intro conjI)
  show "add Size obj force s = push Size obj force s" by (rule add_def)
  show "pull Size (Some d) s = map_sum id (\<lambda>(r, d', s'). (r, Some d', s')) (poll Size d s)"
    by (cases "poll Size d s") (auto simp: pull_def)
  show "pull Size None s = Inr (fst (poll0 s), None, snd (poll0 s))"
    by (simp add: pull_def split: prod.split)
  show "fst (poll0 s) = (\<not> empty_rb s)" by (simp add: poll0_def)
  show "uint (size_rb (snd (poll0 s))) = uint (size_rb s) - (if empty_rb s then 0 else 1)"
    using uint_count_dec[of s] by (simp add: poll0_def size_rb_def)
  show "buf (snd (poll0 s)) = buf s" by (simp add: poll0_def)
  show "head (snd (poll0 s)) = head s" by (simp add: poll0_def)
qed

end
